theory Spec2Isabelle
  imports Complex_Main "HOL-Library.Char_ord" "HOL-Library.List_Lexorder" "HOL-Library.Sublist"
begin

section \<open>Schema model (schema-types)\<close>

text \<open>
  The interfaces \<^verbatim>\<open>ColumnInfo\<close>, \<^verbatim>\<open>TableInfo\<close> and \<^verbatim>\<open>ForeignKey\<close> as records.
  An optional field is an \<open>option\<close>. The field \<^verbatim>\<open>name\<close> of a column is called
  \<open>cname\<close> here, since a table has a field \<open>name\<close> too.
\<close>

record column_info =
  cname :: string
  dataType :: string
  isNullable :: bool
  defaultValue :: "string option"
  isPrimaryKey :: bool
  isForeignKey :: bool
  isUnique :: bool
  references :: "(string \<times> string) option"

record table_info =
  name :: string
  schema :: string
  columns :: "column_info list"
  rowCount :: "nat option"

record foreign_key =
  constraintName :: string
  sourceTable :: string
  sourceColumn :: string
  targetTable :: string
  targetColumn :: string

text \<open>
  Every view first computes \<^verbatim>\<open>tables = schema.tables.filter(...)\<close> and then works on
  that list and on \<^verbatim>\<open>schema.foreignKeys\<close>. The functions below take the filtered list
  \<open>tables\<close> and the whole foreign-key list as arguments.
\<close>

section \<open>Plain objects as dictionaries\<close>

text \<open>
  The views keep their dictionaries in plain objects (\<^verbatim>\<open>const deps: Record<...> = {}\<close>).
  A read \<^verbatim>\<open>obj[k]\<close> of a key that is no own property falls through to \<^verbatim>\<open>Object.prototype\<close>:
  for the keys below it yields an inherited member, a function or, for \<^verbatim>\<open>__proto__\<close>, the
  prototype object itself, which is neither \<^verbatim>\<open>undefined\<close> nor falsy. The own properties
  are a map; a read is one of three cases.
\<close>

datatype 'v js_lookup = Own 'v | Inherited | Undefined

definition object_prototype_keys :: "string list" where
  "object_prototype_keys =
     [''constructor'', ''hasOwnProperty'', ''isPrototypeOf'', ''propertyIsEnumerable'',
      ''toLocaleString'', ''toString'', ''valueOf'', ''__defineGetter__'', ''__defineSetter__'',
      ''__lookupGetter__'', ''__lookupSetter__'', ''__proto__'']"

definition js_get :: "(string \<rightharpoonup> 'v) \<Rightarrow> string \<Rightarrow> 'v js_lookup" where
  "js_get obj k =
     (case obj k of
        Some v \<Rightarrow> Own v
      | None \<Rightarrow> if k \<in> set object_prototype_keys then Inherited else Undefined)"

text \<open>
  The truthiness of a read from a dictionary of strings: a missing property and the empty
  string are falsy, an inherited member (a function or an object) is truthy.
\<close>

definition js_truthy :: "string js_lookup \<Rightarrow> bool" where
  "js_truthy v = (case v of Own s \<Rightarrow> s \<noteq> [] | Inherited \<Rightarrow> True | Undefined \<Rightarrow> False)"

text \<open>
  A store \<^verbatim>\<open>obj[k] = v\<close> of a primitive value (a number, a string) makes an own property,
  except under the key \<^verbatim>\<open>__proto__\<close>, where it is ignored.
\<close>

definition js_put :: "(string \<rightharpoonup> 'v) \<Rightarrow> string \<Rightarrow> 'v \<Rightarrow> (string \<rightharpoonup> 'v)" where
  "js_put obj k v = (if k = ''__proto__'' then obj else obj(k \<mapsto> v))"

text \<open>
  The outcomes of a run that does not return a value. \<open>TypeError\<close> is the exception of
  JavaScript. \<open>OutsideModel\<close> marks a run that goes on with an inherited member as a value
  (it reads or writes a property of the member, or calls a function of the view with it),
  or that replaces the prototype of a dictionary (a store of an object under the key
  \<^verbatim>\<open>__proto__\<close>): the built-in objects are not part of the state modelled here, and such a
  run is not followed further.
\<close>

datatype js_error = TypeError | OutsideModel

text \<open>A loop over a list that stops at the first run that does not return a value.\<close>

fun fold_result :: "('s \<Rightarrow> 'a \<Rightarrow> 'e + 's) \<Rightarrow> 's \<Rightarrow> 'a list \<Rightarrow> 'e + 's" where
  "fold_result f s [] = Inr s"
| "fold_result f s (x # xs) =
     (case f s x of Inl e \<Rightarrow> Inl e | Inr s' \<Rightarrow> fold_result f s' xs)"

section \<open>Layered layout glue (layout-utils.ts)\<close>

text \<open>
  A React-Flow node and edge are extensible records: the fields the function reads are
  named, every further field lives in the extension part. The spread \<^verbatim>\<open>{...node,
  position: p}\<close> is the record update \<open>node\<lparr>position := p\<rparr>\<close>.
  The library \<^verbatim>\<open>dagre\<close> is not part of the repository: its \<^verbatim>\<open>layout\<close> is a parameter
  that maps the graph that was built to the graph with coordinates.
\<close>

record xy_position =
  pos_x :: real
  pos_y :: real

record node_data =
  columnCount :: "real option"

record 'd rf_node =
  node_id :: string
  position :: xy_position
  data :: "'d node_data_scheme option"

record rf_edge =
  edge_id :: string
  source :: string
  target :: string

datatype direction = TB | LR

record dagre_label =
  width :: real
  height :: real
  lab_x :: real
  lab_y :: real

record dagre_graph =
  rankdir :: direction
  ranksep :: real
  nodesep :: real
  g_nodes :: "string \<rightharpoonup> dagre_label"
  g_edges :: "(string \<times> string) list"

definition node_height :: "real \<Rightarrow> ('d, 'n) rf_node_scheme \<Rightarrow> real" where
  "node_height nodeHeight node =
     (case data node of
        None \<Rightarrow> nodeHeight
      | Some d \<Rightarrow> (case columnCount d of
                    None \<Rightarrow> nodeHeight
                  | Some c \<Rightarrow> if c \<noteq> 0 then 60 + c * 28 else nodeHeight))"

definition setNode :: "string \<Rightarrow> dagre_label \<Rightarrow> dagre_graph \<Rightarrow> dagre_graph" where
  "setNode k l g = g\<lparr>g_nodes := (g_nodes g)(k \<mapsto> l)\<rparr>"

definition setEdge :: "string \<Rightarrow> string \<Rightarrow> dagre_graph \<Rightarrow> dagre_graph" where
  "setEdge s t g = g\<lparr>g_edges := g_edges g @ [(s, t)]\<rparr>"

definition build_graph ::
  "('d, 'n) rf_node_scheme list \<Rightarrow> 'e rf_edge_scheme list \<Rightarrow> direction \<Rightarrow> real \<Rightarrow> real
     \<Rightarrow> dagre_graph" where
  "build_graph nodes edges dir nodeWidth nodeHeight =
     (let g0 = \<lparr>rankdir = dir, ranksep = 80, nodesep = 60, g_nodes = Map.empty, g_edges = []\<rparr>;
          g1 = foldl (\<lambda>g node. setNode (node_id node)
                  \<lparr>width = nodeWidth, height = node_height nodeHeight node, lab_x = 0, lab_y = 0\<rparr> g)
                g0 nodes
      in foldl (\<lambda>g edge. setEdge (source edge) (target edge) g) g1 edges)"

definition layout_node ::
  "dagre_graph \<Rightarrow> real \<Rightarrow> real \<Rightarrow> ('d, 'n) rf_node_scheme
     \<Rightarrow> js_error + ('d, 'n) rf_node_scheme" where
  "layout_node g nodeWidth nodeHeight node =
     (case g_nodes g (node_id node) of
        None \<Rightarrow> Inl TypeError
      | Some n \<Rightarrow> Inr (node\<lparr>position :=
          \<lparr>pos_x = lab_x n - nodeWidth / 2,
           pos_y = lab_y n - (if height n \<noteq> 0 then height n else nodeHeight) / 2\<rparr>\<rparr>))"

fun map_result :: "('a \<Rightarrow> 'e + 'b) \<Rightarrow> 'a list \<Rightarrow> 'e + 'b list" where
  "map_result f [] = Inr []"
| "map_result f (x # xs) =
     (case f x of
        Inl e \<Rightarrow> Inl e
      | Inr y \<Rightarrow> (case map_result f xs of Inl e \<Rightarrow> Inl e | Inr ys \<Rightarrow> Inr (y # ys)))"

definition getLayoutedElements ::
  "(dagre_graph \<Rightarrow> dagre_graph) \<Rightarrow> ('d, 'n) rf_node_scheme list \<Rightarrow> 'e rf_edge_scheme list
     \<Rightarrow> direction \<Rightarrow> real \<Rightarrow> real
     \<Rightarrow> js_error + (('d, 'n) rf_node_scheme list \<times> 'e rf_edge_scheme list)" where
  "getLayoutedElements layout nodes edges dir nodeWidth nodeHeight =
     (let g = layout (build_graph nodes edges dir nodeWidth nodeHeight)
      in case map_result (layout_node g nodeWidth nodeHeight) nodes of
           Inl e \<Rightarrow> Inl e
         | Inr layoutedNodes \<Rightarrow> Inr (layoutedNodes, edges))"

section \<open>Level assignment (ProcessFlowView, the same loop in TimelineView)\<close>

text \<open>
  A JavaScript \<^verbatim>\<open>Set<string>\<close> keeps its elements in insertion order without duplicates:
  a list, with \<^verbatim>\<open>add\<close> appending a new element and \<^verbatim>\<open>size\<close> the length.
  \<^verbatim>\<open>deps\<close> is a plain object from names to such sets.
  \<^verbatim>\<open>deps[t.name] = new Set()\<close> for a table named \<^verbatim>\<open>__proto__\<close> replaces the prototype of
  \<^verbatim>\<open>deps\<close>. In \<^verbatim>\<open>if (deps[src]) deps[src].add(tgt)\<close> an inherited member passes the test and
  has no method \<^verbatim>\<open>add\<close>: the call raises \<^verbatim>\<open>TypeError\<close>. In \<^verbatim>\<open>[...(deps[n] || [])]\<close> an
  inherited member is not iterable: the spread raises \<^verbatim>\<open>TypeError\<close>.
\<close>

definition set_add :: "string \<Rightarrow> string list \<Rightarrow> string list" where
  "set_add v s = (if v \<in> set s then s else s @ [v])"

definition new_dep ::
  "(string \<rightharpoonup> string list) \<Rightarrow> table_info \<Rightarrow> js_error + (string \<rightharpoonup> string list)" where
  "new_dep deps t =
     (if name t = ''__proto__'' then Inl OutsideModel else Inr (deps(name t \<mapsto> [])))"

definition init_deps :: "table_info list \<Rightarrow> js_error + (string \<rightharpoonup> string list)" where
  "init_deps tables = fold_result new_dep Map.empty tables"

definition add_dep ::
  "(string \<rightharpoonup> string list) \<Rightarrow> foreign_key \<Rightarrow> js_error + (string \<rightharpoonup> string list)" where
  "add_dep deps fk =
     (case js_get deps (sourceTable fk) of
        Own s \<Rightarrow> Inr (deps(sourceTable fk \<mapsto> set_add (targetTable fk) s))
      | Inherited \<Rightarrow> Inl TypeError
      | Undefined \<Rightarrow> Inr deps)"

definition build_deps ::
  "table_info list \<Rightarrow> foreign_key list \<Rightarrow> js_error + (string \<rightharpoonup> string list)" where
  "build_deps tables foreignKeys =
     (case init_deps tables of
        Inl e \<Rightarrow> Inl e
      | Inr deps \<Rightarrow> fold_result add_dep deps foreignKeys)"

definition unmet ::
  "(string \<rightharpoonup> string list) \<Rightarrow> string list \<Rightarrow> string \<Rightarrow> js_error + string list" where
  "unmet deps placed n =
     (case js_get deps n of
        Own s \<Rightarrow> Inr (filter (\<lambda>d. d \<notin> set placed) s)
      | Inherited \<Rightarrow> Inl TypeError
      | Undefined \<Rightarrow> Inr [])"

definition ready_step ::
  "(string \<rightharpoonup> string list) \<Rightarrow> string list \<Rightarrow> string list \<Rightarrow> table_info
     \<Rightarrow> js_error + string list" where
  "ready_step deps placed level t =
     (if name t \<in> set placed then Inr level
      else (case unmet deps placed (name t) of
              Inl e \<Rightarrow> Inl e
            | Inr u \<Rightarrow> Inr (if length u = 0 then level @ [name t] else level)))"

definition ready_level ::
  "(string \<rightharpoonup> string list) \<Rightarrow> string list \<Rightarrow> table_info list \<Rightarrow> js_error + string list" where
  "ready_level deps placed tables = fold_result (ready_step deps placed) [] tables"

definition forced_level :: "string list \<Rightarrow> table_info list \<Rightarrow> string list" where
  "forced_level placed tables = map name (filter (\<lambda>t. name t \<notin> set placed) tables)"

definition next_level ::
  "(string \<rightharpoonup> string list) \<Rightarrow> string list \<Rightarrow> table_info list \<Rightarrow> js_error + string list" where
  "next_level deps placed tables =
     (case ready_level deps placed tables of
        Inl e \<Rightarrow> Inl e
      | Inr level \<Rightarrow> Inr (if length level = 0 then forced_level placed tables else level))"

definition place_all :: "string list \<Rightarrow> string list \<Rightarrow> string list" where
  "place_all placed level = foldl (\<lambda>p n. set_add n p) placed level"

text \<open>
  The \<^verbatim>\<open>while (placed.size < tables.length)\<close> loop. The first argument bounds the number
  of iterations the loop may make: \<open>None\<close> says that the loop has not left after that many.
\<close>

fun levels_loop ::
  "nat \<Rightarrow> (string \<rightharpoonup> string list) \<Rightarrow> table_info list \<Rightarrow> string list \<Rightarrow> string list list
     \<Rightarrow> (js_error + string list list) option" where
  "levels_loop fuel deps tables placed levels =
     (if length placed < length tables then
        (case fuel of
           0 \<Rightarrow> None
         | Suc k \<Rightarrow>
             (case next_level deps placed tables of
                Inl e \<Rightarrow> Some (Inl e)
              | Inr level \<Rightarrow>
                  levels_loop k deps tables (place_all placed level) (levels @ [level])))
      else Some (Inr levels))"

definition flow_levels ::
  "nat \<Rightarrow> table_info list \<Rightarrow> foreign_key list \<Rightarrow> (js_error + string list list) option" where
  "flow_levels fuel tables foreignKeys =
     (case build_deps tables foreignKeys of
        Inl e \<Rightarrow> Some (Inl e)
      | Inr deps \<Rightarrow> levels_loop fuel deps tables [] [])"

declare levels_loop.simps [simp del]

section \<open>Level assignment on own properties\<close>

text \<open>
  The functions of the level assignment where every read of \<^verbatim>\<open>deps\<close> finds an own
  property or nothing. They are what the functions above compute when no table is named
  \<^verbatim>\<open>__proto__\<close> and every foreign key has a source that is a listed table or no inherited
  key; the properties of the loop are proved on them and carried over.
\<close>

definition init_deps_own :: "table_info list \<Rightarrow> (string \<rightharpoonup> string list)" where
  "init_deps_own tables = foldl (\<lambda>deps t. deps(name t \<mapsto> [])) Map.empty tables"

definition add_dep_own :: "(string \<rightharpoonup> string list) \<Rightarrow> foreign_key \<Rightarrow> (string \<rightharpoonup> string list)" where
  "add_dep_own deps fk =
     (case deps (sourceTable fk) of
        None \<Rightarrow> deps
      | Some s \<Rightarrow> deps(sourceTable fk \<mapsto> set_add (targetTable fk) s))"

definition build_deps_own :: "table_info list \<Rightarrow> foreign_key list \<Rightarrow> (string \<rightharpoonup> string list)" where
  "build_deps_own tables foreignKeys = foldl add_dep_own (init_deps_own tables) foreignKeys"

definition unmet_own :: "(string \<rightharpoonup> string list) \<Rightarrow> string list \<Rightarrow> string \<Rightarrow> string list" where
  "unmet_own deps placed n =
     filter (\<lambda>d. d \<notin> set placed) (case deps n of None \<Rightarrow> [] | Some s \<Rightarrow> s)"

definition ready_level_own ::
  "(string \<rightharpoonup> string list) \<Rightarrow> string list \<Rightarrow> table_info list \<Rightarrow> string list" where
  "ready_level_own deps placed tables =
     map name (filter (\<lambda>t. name t \<notin> set placed \<and> unmet_own deps placed (name t) = []) tables)"

definition next_level_own ::
  "(string \<rightharpoonup> string list) \<Rightarrow> string list \<Rightarrow> table_info list \<Rightarrow> string list" where
  "next_level_own deps placed tables =
     (let level = ready_level_own deps placed tables
      in if level = [] then forced_level placed tables else level)"

fun levels_loop_own ::
  "nat \<Rightarrow> (string \<rightharpoonup> string list) \<Rightarrow> table_info list \<Rightarrow> string list \<Rightarrow> string list list
     \<Rightarrow> string list list option" where
  "levels_loop_own fuel deps tables placed levels =
     (if length placed < length tables then
        (case fuel of
           0 \<Rightarrow> None
         | Suc k \<Rightarrow>
             (let level = next_level_own deps placed tables
              in levels_loop_own k deps tables (place_all placed level) (levels @ [level])))
      else Some levels)"

definition flow_levels_own ::
  "nat \<Rightarrow> table_info list \<Rightarrow> foreign_key list \<Rightarrow> string list list option" where
  "flow_levels_own fuel tables foreignKeys =
     levels_loop_own fuel (build_deps_own tables foreignKeys) tables [] []"

declare levels_loop_own.simps [simp del]

text \<open>
  No table is named \<^verbatim>\<open>__proto__\<close>, and the source of every foreign key is a listed table
  or no inherited key.
\<close>

definition plain_sources :: "table_info list \<Rightarrow> foreign_key list \<Rightarrow> bool" where
  "plain_sources tables fks \<longleftrightarrow>
     ''__proto__'' \<notin> name ` set tables \<and>
     (\<forall>fk \<in> set fks. sourceTable fk \<in> name ` set tables
                      \<or> sourceTable fk \<notin> set object_prototype_keys)"

section \<open>Example inputs\<close>

text \<open>
  A table without columns, and a foreign key with the constraint name that
  \<^verbatim>\<open>parseOpenApiSpec\<close> gives it.
\<close>

definition mk_table :: "string \<Rightarrow> table_info" where
  "mk_table n = \<lparr>name = n, schema = ''public'', columns = [], rowCount = None\<rparr>"

definition mk_fk :: "string \<Rightarrow> string \<Rightarrow> string \<Rightarrow> string \<Rightarrow> foreign_key" where
  "mk_fk s sc t tc =
     \<lparr>constraintName = s @ ''_'' @ sc @ ''_fkey'', sourceTable = s, sourceColumn = sc,
      targetTable = t, targetColumn = tc\<rparr>"

section \<open>Specification predicates for level assignment\<close>

text \<open>
  The dependency graph of the specification, restricted to sources in a set \<open>N\<close> of table
  names: an edge from the source table of a foreign key to its target table.
\<close>

definition fk_edges :: "string set \<Rightarrow> foreign_key list \<Rightarrow> (string \<times> string) set" where
  "fk_edges N fks = {(s, t). s \<in> N \<and> (\<exists>fk \<in> set fks. sourceTable fk = s \<and> targetTable fk = t)}"

text \<open>
  The order the specification asks of a level list: the target table of every foreign key
  whose source table is in level \<open>k\<close> is in a level below \<open>k\<close>.
\<close>

definition levels_ordered :: "foreign_key list \<Rightarrow> string list list \<Rightarrow> bool" where
  "levels_ordered fks lv \<longleftrightarrow>
     (\<forall>k < length lv. \<forall>fk \<in> set fks. sourceTable fk \<in> set (lv ! k) \<longrightarrow>
        (\<exists>j < k. targetTable fk \<in> set (lv ! j)))"

section \<open>Connection matrix (CorrelationView)\<close>

text \<open>
  \<^verbatim>\<open>matrix\<close> is a plain object from names to rows, a row a plain object from names to
  numbers. A cell holds a count, or \<^verbatim>\<open>NaN\<close> after \<^verbatim>\<open>++\<close> on a value that is no number:
  a missing cell or an inherited member. \<^verbatim>\<open>matrix[t.name] = {}\<close> for a table named
  \<^verbatim>\<open>__proto__\<close> replaces the prototype of \<^verbatim>\<open>matrix\<close>. Reading a property of a missing row
  raises \<^verbatim>\<open>TypeError\<close>; where \<^verbatim>\<open>matrix[a]\<close> is an inherited member, \<^verbatim>\<open>matrix[a][b]\<close> reads
  and \<^verbatim>\<open>matrix[a][b]++\<close> writes a property of a built-in object.
  \<^verbatim>\<open>connectionDetails\<close> is keyed by the strings \<^verbatim>\<open>source:target\<close> and \<^verbatim>\<open>target:source\<close>;
  every key holds a colon, so none is the name of an inherited member.
  The arrow of the \<^verbatim>\<open>via\<close> text is written as its three UTF-8 bytes.
\<close>

datatype js_number = Num nat | NaN

record detail =
  d_from :: string
  d_to :: string
  via :: string

type_synonym matrix = "string \<rightharpoonup> (string \<rightharpoonup> js_number)"

type_synonym details = "string \<rightharpoonup> detail list"

definition init_row :: "table_info list \<Rightarrow> (string \<rightharpoonup> js_number)" where
  "init_row tables = foldl (\<lambda>row t2. js_put row (name t2) (Num 0)) Map.empty tables"

definition new_row :: "table_info list \<Rightarrow> matrix \<Rightarrow> table_info \<Rightarrow> js_error + matrix" where
  "new_row tables m t =
     (if name t = ''__proto__'' then Inl OutsideModel
      else Inr (m(name t \<mapsto> init_row tables)))"

definition init_matrix :: "table_info list \<Rightarrow> js_error + matrix" where
  "init_matrix tables = fold_result (new_row tables) Map.empty tables"

definition incr :: "js_number js_lookup \<Rightarrow> js_number" where
  "incr v = (case v of Own (Num k) \<Rightarrow> Num (Suc k) | _ \<Rightarrow> NaN)"

text \<open>The statement \<^verbatim>\<open>matrix[a][b]++\<close>.\<close>

definition bump :: "matrix \<Rightarrow> string \<Rightarrow> string \<Rightarrow> js_error + matrix" where
  "bump m a b =
     (case js_get m a of
        Undefined \<Rightarrow> Inl TypeError
      | Inherited \<Rightarrow> Inl OutsideModel
      | Own row \<Rightarrow> Inr (m(a \<mapsto> js_put row b (incr (js_get row b)))))"

definition arrow :: string where
  "arrow = [CHR 0xE2, CHR 0x86, CHR 0x92]"

definition add_detail :: "details \<Rightarrow> string \<Rightarrow> detail \<Rightarrow> details" where
  "add_detail cd key d = cd(key \<mapsto> (case cd key of None \<Rightarrow> [] | Some ds \<Rightarrow> ds) @ [d])"

text \<open>
  The body of the loop over the foreign keys. The guard
  \<^verbatim>\<open>matrix[src] && matrix[src][tgt] !== undefined\<close> passes on own and on inherited
  properties alike.
\<close>

definition add_connection :: "matrix \<times> details \<Rightarrow> foreign_key \<Rightarrow> js_error + matrix \<times> details" where
  "add_connection st fk =
     (let m = fst st; cd = snd st in
      case js_get m (sourceTable fk) of
        Undefined \<Rightarrow> Inr (m, cd)
      | Inherited \<Rightarrow> Inl OutsideModel
      | Own row \<Rightarrow>
          (case js_get row (targetTable fk) of
             Undefined \<Rightarrow> Inr (m, cd)
           | _ \<Rightarrow>
               (case bump m (sourceTable fk) (targetTable fk) of
                  Inl e \<Rightarrow> Inl e
                | Inr m1 \<Rightarrow>
                    (case bump m1 (targetTable fk) (sourceTable fk) of
                       Inl e \<Rightarrow> Inl e
                     | Inr m2 \<Rightarrow>
                         (let key = sourceTable fk @ '':'' @ targetTable fk;
                              keyR = targetTable fk @ '':'' @ sourceTable fk;
                              d = \<lparr>d_from = sourceTable fk, d_to = targetTable fk,
                                   via = sourceColumn fk @ '' '' @ arrow @ '' '' @ targetColumn fk\<rparr>;
                              cd1 = add_detail cd key d;
                              cd2 = add_detail cd1 keyR d
                          in Inr (m2, cd2))))))"

definition connection_matrix ::
  "table_info list \<Rightarrow> foreign_key list \<Rightarrow> js_error + matrix \<times> details" where
  "connection_matrix tables foreignKeys =
     (case init_matrix tables of
        Inl e \<Rightarrow> Inl e
      | Inr m \<Rightarrow> fold_result add_connection (m, Map.empty) foreignKeys)"

text \<open>
  The reads \<^verbatim>\<open>matrix[a]?.[b]\<close> of the view, which are made at names of listed tables, where
  the rows and the cells are own properties; and the number in a cell that holds one.
\<close>

definition cell :: "matrix \<Rightarrow> string \<Rightarrow> string \<Rightarrow> js_number option" where
  "cell m a b = (case m a of None \<Rightarrow> None | Some row \<Rightarrow> row b)"

definition cell_value :: "matrix \<Rightarrow> string \<Rightarrow> string \<Rightarrow> nat" where
  "cell_value m a b = (case cell m a b of Some (Num k) \<Rightarrow> k | _ \<Rightarrow> 0)"

definition matrix_cell ::
  "table_info list \<Rightarrow> foreign_key list \<Rightarrow> string \<Rightarrow> string \<Rightarrow> js_number option" where
  "matrix_cell tables foreignKeys a b =
     (case connection_matrix tables foreignKeys of
        Inl e \<Rightarrow> None
      | Inr st \<Rightarrow> cell (fst st) a b)"

section \<open>Specification terms for the connection matrix\<close>

text \<open>The number of foreign keys from \<open>a\<close> to \<open>b\<close>.\<close>

definition links :: "foreign_key list \<Rightarrow> string \<Rightarrow> string \<Rightarrow> nat" where
  "links fks a b = length (filter (\<lambda>fk. sourceTable fk = a \<and> targetTable fk = b) fks)"

text \<open>The sum of \<open>f a b\<close> over the pairs of a list, \<open>a\<close> before \<open>b\<close>.\<close>

fun pair_sum :: "('a \<Rightarrow> 'a \<Rightarrow> nat) \<Rightarrow> 'a list \<Rightarrow> nat" where
  "pair_sum f [] = 0"
| "pair_sum f (x # xs) = sum_list (map (f x) xs) + pair_sum f xs"

text \<open>
  The matrix \<open>m\<close> has exactly the rows and columns \<open>N\<close>, and the cell of \<open>a\<close> and \<open>b\<close> holds
  the number \<open>c a b\<close>.
\<close>

definition matrix_counts :: "string set \<Rightarrow> matrix \<Rightarrow> (string \<Rightarrow> string \<Rightarrow> nat) \<Rightarrow> bool" where
  "matrix_counts N m c \<longleftrightarrow>
     (\<forall>a. a \<notin> N \<longrightarrow> m a = None) \<and>
     (\<forall>a \<in> N. \<exists>row. m a = Some row \<and>
        (\<forall>b. row b = (if b \<in> N then Some (Num (c a b)) else None)))"

text \<open>
  No table is named \<^verbatim>\<open>__proto__\<close>, and the source and the target of every foreign key are
  listed tables or no inherited keys.
\<close>

definition plain_links :: "table_info list \<Rightarrow> foreign_key list \<Rightarrow> bool" where
  "plain_links tables fks \<longleftrightarrow>
     ''__proto__'' \<notin> name ` set tables \<and>
     (\<forall>fk \<in> set fks.
        (sourceTable fk \<in> name ` set tables \<or> sourceTable fk \<notin> set object_prototype_keys) \<and>
        (targetTable fk \<in> name ` set tables \<or> targetTable fk \<notin> set object_prototype_keys))"

section \<open>Hierarchy builder (HierarchyView, \<^verbatim>\<open>treeData\<close>)\<close>

text \<open>
  \<^verbatim>\<open>TreeNode\<close> with its fields \<^verbatim>\<open>id\<close>, \<^verbatim>\<open>parentId\<close> (\<^verbatim>\<open>null\<close> is \<open>None\<close>) and \<^verbatim>\<open>table\<close>.
  \<^verbatim>\<open>parentMap\<close> is a plain object from names to names; the tests \<^verbatim>\<open>!parentMap[x]\<close> and
  \<^verbatim>\<open>parent && ...\<close> are truthiness tests, which an inherited member passes. In
  \<^verbatim>\<open>tables.find(tt => tt.name === parent)\<close> an inherited member equals no name.
  The result \<^verbatim>\<open>null\<close> of \<^verbatim>\<open>treeData\<close> is \<open>None\<close>.
\<close>

record tree_node =
  tn_id :: string
  parentId :: "string option"
  tn_table :: table_info

definition add_parent :: "(string \<rightharpoonup> string) \<Rightarrow> foreign_key \<Rightarrow> (string \<rightharpoonup> string)" where
  "add_parent parentMap fk =
     (if \<not> js_truthy (js_get parentMap (sourceTable fk))
      then js_put parentMap (sourceTable fk) (targetTable fk) else parentMap)"

definition parent_map :: "foreign_key list \<Rightarrow> (string \<rightharpoonup> string)" where
  "parent_map foreignKeys = foldl add_parent Map.empty foreignKeys"

definition root_candidates :: "table_info list \<Rightarrow> foreign_key list \<Rightarrow> table_info list" where
  "root_candidates tables foreignKeys =
     filter (\<lambda>t. \<not> js_truthy (js_get (parent_map foreignKeys) (name t))) tables"

definition virtualRoot :: string where
  "virtualRoot = ''__root__''"

definition virtual_node :: tree_node where
  "virtual_node =
     \<lparr>tn_id = virtualRoot, parentId = None,
      tn_table = \<lparr>name = ''Schema'', schema = ''public'', columns = [], rowCount = None\<rparr>\<rparr>"

definition root_nodes :: "table_info list \<Rightarrow> tree_node list" where
  "root_nodes roots =
     (if length roots > 1 then
        virtual_node # map (\<lambda>t. \<lparr>tn_id = name t, parentId = Some virtualRoot, tn_table = t\<rparr>) roots
      else if length roots = 1 then
        [\<lparr>tn_id = name (roots ! 0), parentId = None, tn_table = roots ! 0\<rparr>]
      else [])"

text \<open>The value of \<^verbatim>\<open>roots.length > 1 ? virtualRoot : roots[0]?.name || null\<close>.\<close>

definition fallback_parent :: "table_info list \<Rightarrow> string option" where
  "fallback_parent roots =
     (if length roots > 1 then Some virtualRoot
      else (case roots of
              [] \<Rightarrow> None
            | r # _ \<Rightarrow> if name r \<noteq> [] then Some (name r) else None))"

definition child_node ::
  "table_info list \<Rightarrow> (string \<rightharpoonup> string) \<Rightarrow> table_info list \<Rightarrow> table_info \<Rightarrow> tree_node" where
  "child_node tables parentMap roots t =
     (case js_get parentMap (name t) of
        Own parent \<Rightarrow>
          if parent \<noteq> [] \<and> (\<exists>tt \<in> set tables. name tt = parent)
          then \<lparr>tn_id = name t, parentId = Some parent, tn_table = t\<rparr>
          else \<lparr>tn_id = name t, parentId = fallback_parent roots, tn_table = t\<rparr>
      | _ \<Rightarrow> \<lparr>tn_id = name t, parentId = fallback_parent roots, tn_table = t\<rparr>)"

definition place_table ::
  "table_info list \<Rightarrow> (string \<rightharpoonup> string) \<Rightarrow> table_info list \<Rightarrow> tree_node list \<Rightarrow> table_info
     \<Rightarrow> tree_node list" where
  "place_table tables parentMap roots nodes t =
     (if \<exists>n \<in> set nodes. tn_id n = name t then nodes
      else nodes @ [child_node tables parentMap roots t])"

definition treeData :: "table_info list \<Rightarrow> foreign_key list \<Rightarrow> tree_node list option" where
  "treeData tables foreignKeys =
     (let parentMap = parent_map foreignKeys;
          roots = root_candidates tables foreignKeys
      in if length roots = 0 \<and> length tables > 0 then None
         else Some (foldl (place_table tables parentMap roots) (root_nodes roots) tables))"

text \<open>The ids of the nodes whose parent is the virtual root, and of the nodes without parent.\<close>

definition virtual_root_children :: "table_info list \<Rightarrow> foreign_key list \<Rightarrow> string list option" where
  "virtual_root_children tables foreignKeys =
     map_option (\<lambda>nodes. map tn_id (filter (\<lambda>n. parentId n = Some virtualRoot) nodes))
       (treeData tables foreignKeys)"

definition top_nodes :: "table_info list \<Rightarrow> foreign_key list \<Rightarrow> string list option" where
  "top_nodes tables foreignKeys =
     map_option (\<lambda>nodes. map tn_id (filter (\<lambda>n. parentId n = None) nodes))
       (treeData tables foreignKeys)"

definition node_ids :: "table_info list \<Rightarrow> foreign_key list \<Rightarrow> string list option" where
  "node_ids tables foreignKeys = map_option (map tn_id) (treeData tables foreignKeys)"

section \<open>Specification terms for the hierarchy\<close>

text \<open>
  Modelled from the spec: the primary parent of a table is the target table of the first
  foreign key, in input order, whose source is that table.
\<close>

definition primary_parent :: "foreign_key list \<Rightarrow> string \<Rightarrow> string option" where
  "primary_parent fks n = map_option targetTable (find (\<lambda>fk. sourceTable fk = n) fks)"

text \<open>Modelled from the spec: a table with no outgoing foreign keys is a root candidate.\<close>

definition root_candidate :: "foreign_key list \<Rightarrow> table_info \<Rightarrow> bool" where
  "root_candidate fks t \<longleftrightarrow> filter (\<lambda>fk. sourceTable fk = name t) fks = []"

text \<open>
  Modelled from the spec: a table whose declared parent, its primary parent, is not
  present in the filtered set.
\<close>

definition orphan :: "table_info list \<Rightarrow> foreign_key list \<Rightarrow> table_info \<Rightarrow> bool" where
  "orphan tables fks t \<longleftrightarrow>
     (case primary_parent fks (name t) of
        None \<Rightarrow> False
      | Some p \<Rightarrow> p \<notin> name ` set tables)"

section \<open>Sorting with a comparator\<close>

text \<open>
  \<^verbatim>\<open>Array.prototype.sort\<close> with a comparator is a stable sort: an insertion sort that puts
  an element before the first later element it does not compare greater than.
\<close>

fun insert_by :: "('a \<Rightarrow> 'a \<Rightarrow> int) \<Rightarrow> 'a \<Rightarrow> 'a list \<Rightarrow> 'a list" where
  "insert_by cmp x [] = [x]"
| "insert_by cmp x (y # ys) = (if cmp x y \<le> 0 then x # y # ys else y # insert_by cmp x ys)"

definition js_sort :: "('a \<Rightarrow> 'a \<Rightarrow> int) \<Rightarrow> 'a list \<Rightarrow> 'a list" where
  "js_sort cmp xs = foldr (insert_by cmp) xs []"

section \<open>Initial placement of the force layout (NodeLinkView)\<close>

text \<open>
  \<^verbatim>\<open>GraphNode\<close> with its position and velocity. JavaScript numbers are modelled as real
  numbers, \<^verbatim>\<open>Math.cos\<close>, \<^verbatim>\<open>Math.sin\<close> and \<^verbatim>\<open>Math.PI\<close> as \<open>cos\<close>, \<open>sin\<close> and \<open>pi\<close>;
  the index \<open>i\<close> of \<^verbatim>\<open>sorted.map((table, i) => ...)\<close> is a natural number.
  \<^verbatim>\<open>connCount\<close> is a plain object that is read at the names of the tables only, after
  every table has got its own count: the map below holds these own counts. An increment
  under the name of an inherited member that is no table stores \<^verbatim>\<open>NaN\<close> under a key that
  is never read. A table named \<^verbatim>\<open>__proto__\<close>, whose count is not stored, is not covered.
\<close>

record graph_node =
  gn_id :: string
  gn_table :: table_info
  gx :: real
  gy :: real
  vx :: real
  vy :: real
  connections :: nat

definition bump_count :: "(string \<rightharpoonup> nat) \<Rightarrow> string \<Rightarrow> (string \<rightharpoonup> nat)" where
  "bump_count connCount k =
     (case connCount k of None \<Rightarrow> connCount | Some c \<Rightarrow> connCount(k \<mapsto> Suc c))"

definition conn_count :: "table_info list \<Rightarrow> foreign_key list \<Rightarrow> (string \<rightharpoonup> nat)" where
  "conn_count tables foreignKeys =
     foldl (\<lambda>cc fk. bump_count (bump_count cc (sourceTable fk)) (targetTable fk))
       (foldl (\<lambda>cc t. cc(name t \<mapsto> 0)) Map.empty tables) foreignKeys"

text \<open>The value of \<^verbatim>\<open>connCount[n] || 0\<close>.\<close>

definition count_or_zero :: "(string \<rightharpoonup> nat) \<Rightarrow> string \<Rightarrow> nat" where
  "count_or_zero connCount n = (case connCount n of None \<Rightarrow> 0 | Some c \<Rightarrow> c)"

definition sorted_tables :: "table_info list \<Rightarrow> foreign_key list \<Rightarrow> table_info list" where
  "sorted_tables tables foreignKeys =
     (let connCount = conn_count tables foreignKeys
      in js_sort (\<lambda>a b. int (count_or_zero connCount (name b))
                        - int (count_or_zero connCount (name a))) tables)"

definition ring_of :: "nat \<Rightarrow> nat" where
  "ring_of i = nat \<lceil>real i / 6\<rceil>"

definition posInRing :: "nat \<Rightarrow> nat" where
  "posInRing i = (i - 1) mod (ring_of i * 6)"

definition angle_of :: "nat \<Rightarrow> real" where
  "angle_of i = (real (posInRing i) / real (ring_of i * 6)) * pi * 2 - pi / 2"

definition radius_of :: "nat \<Rightarrow> real" where
  "radius_of i = real (ring_of i * 280)"

definition initial_node :: "(string \<rightharpoonup> nat) \<Rightarrow> table_info \<Rightarrow> nat \<Rightarrow> graph_node" where
  "initial_node connCount t i =
     (if i = 0 then
        \<lparr>gn_id = name t, gn_table = t, gx = 0, gy = 0, vx = 0, vy = 0,
         connections = count_or_zero connCount (name t)\<rparr>
      else
        \<lparr>gn_id = name t, gn_table = t,
         gx = cos (angle_of i) * radius_of i, gy = sin (angle_of i) * radius_of i,
         vx = 0, vy = 0, connections = count_or_zero connCount (name t)\<rparr>)"

definition initial_nodes :: "table_info list \<Rightarrow> foreign_key list \<Rightarrow> graph_node list" where
  "initial_nodes tables foreignKeys =
     (let connCount = conn_count tables foreignKeys;
          sorted = sorted_tables tables foreignKeys
      in map (\<lambda>(t, i). initial_node connCount t i) (zip sorted [0 ..< length sorted]))"

section \<open>Clustering engine (SwimlaneView, GroupedView)\<close>

text \<open>
  A run of the clustering code returns a value, raises an error, or does not return:
  \<open>None\<close> says that it does not return.
\<close>

definition run_bind :: "('e + 'a) option \<Rightarrow> ('a \<Rightarrow> ('e + 'b) option) \<Rightarrow> ('e + 'b) option" where
  "run_bind m f = (case m of None \<Rightarrow> None | Some (Inl e) \<Rightarrow> Some (Inl e) | Some (Inr v) \<Rightarrow> f v)"

fun fold_run :: "('s \<Rightarrow> 'a \<Rightarrow> ('e + 's) option) \<Rightarrow> 's \<Rightarrow> 'a list \<Rightarrow> ('e + 's) option" where
  "fold_run f s [] = Some (Inr s)"
| "fold_run f s (x # xs) = run_bind (f s x) (\<lambda>s'. fold_run f s' xs)"

text \<open>
  \<^verbatim>\<open>parent\<close> is a plain object from names to names that \<^verbatim>\<open>find\<close> mutates: the model passes
  the own properties in and returns them with the result. \<^verbatim>\<open>find\<close> recurses along the parent
  links and need not return when the links form a cycle, so it is a partial function. The
  read \<^verbatim>\<open>!parent[x]\<close> is a truthiness test. Where \<^verbatim>\<open>parent[x]\<close> is an inherited member, it is
  not equal to \<^verbatim>\<open>x\<close>, and \<^verbatim>\<open>find\<close> calls itself with that member as its argument.
\<close>

partial_function (option) uf_find ::
  "(string \<rightharpoonup> string) \<Rightarrow> string \<Rightarrow> (js_error + string \<times> (string \<rightharpoonup> string)) option" where
  "uf_find parent x =
     (let parent1 = (if \<not> js_truthy (js_get parent x) then js_put parent x x else parent)
      in case js_get parent1 x of
           Own p \<Rightarrow>
             if p = x then Some (Inr (x, parent1))
             else Option.bind (uf_find parent1 p)
                    (\<lambda>res. case res of
                             Inl e \<Rightarrow> Some (Inl e)
                           | Inr found \<Rightarrow> Some (Inr (fst found, js_put (snd found) x (fst found))))
         | _ \<Rightarrow> Some (Inl OutsideModel))"

declare uf_find.simps [code]

text \<open>
  \<^verbatim>\<open>parent[find(a)] = find(b)\<close>: the key \<^verbatim>\<open>find(a)\<close> is evaluated first, then \<^verbatim>\<open>find(b)\<close>,
  then the store.
\<close>

definition uf_union ::
  "(string \<rightharpoonup> string) \<Rightarrow> string \<Rightarrow> string \<Rightarrow> (js_error + (string \<rightharpoonup> string)) option" where
  "uf_union parent a b =
     run_bind (uf_find parent a) (\<lambda>ra.
       run_bind (uf_find (snd ra) b) (\<lambda>rb.
         Some (Inr (js_put (snd rb) (fst ra) (fst rb)))))"

definition init_parent :: "table_info list \<Rightarrow> (string \<rightharpoonup> string)" where
  "init_parent tables = foldl (\<lambda>parent t. js_put parent (name t) (name t)) Map.empty tables"

text \<open>\<^verbatim>\<open>tables.find(t => t.name === n)\<close> as a truth value.\<close>

definition listed :: "table_info list \<Rightarrow> string \<Rightarrow> bool" where
  "listed tables n = (n \<in> name ` set tables)"

definition swimlane_unions ::
  "table_info list \<Rightarrow> foreign_key list \<Rightarrow> (js_error + (string \<rightharpoonup> string)) option" where
  "swimlane_unions tables foreignKeys =
     fold_run (\<lambda>parent fk.
         if listed tables (sourceTable fk) \<and> listed tables (targetTable fk)
         then uf_union parent (sourceTable fk) (targetTable fk) else Some (Inr parent))
       (init_parent tables) foreignKeys"

definition grouped_unions ::
  "table_info list \<Rightarrow> foreign_key list \<Rightarrow> (js_error + (string \<rightharpoonup> string)) option" where
  "grouped_unions tables foreignKeys =
     fold_run (\<lambda>parent fk. uf_union parent (sourceTable fk) (targetTable fk))
       (init_parent tables) foreignKeys"

text \<open>
  \<^verbatim>\<open>groups\<close> is a plain object from roots to arrays of tables whose keys are enumerated
  later: the own properties are an association list in the order in which the keys were
  created. In \<^verbatim>\<open>if (!groups[root]) groups[root] = []; groups[root].push(t)\<close> an array is
  truthy, also when empty; an inherited member is truthy too and has no \<^verbatim>\<open>push\<close>, so the
  call raises \<^verbatim>\<open>TypeError\<close>.
\<close>

type_synonym groups = "(string \<times> table_info list) list"

definition add_member :: "groups \<Rightarrow> string \<Rightarrow> table_info \<Rightarrow> js_error + groups" where
  "add_member gs r t =
     (if r \<in> fst ` set gs
      then Inr (map (\<lambda>g. if fst g = r then (fst g, snd g @ [t]) else g) gs)
      else if r \<in> set object_prototype_keys then Inl TypeError
      else Inr (gs @ [(r, [t])]))"

definition collect_step ::
  "(string \<rightharpoonup> string) \<times> groups \<Rightarrow> table_info
     \<Rightarrow> (js_error + (string \<rightharpoonup> string) \<times> groups) option" where
  "collect_step st t =
     run_bind (uf_find (fst st) (name t)) (\<lambda>found.
       case add_member (snd st) (fst found) t of
         Inl e \<Rightarrow> Some (Inl e)
       | Inr gs \<Rightarrow> Some (Inr (snd found, gs)))"

definition collect_groups ::
  "table_info list \<Rightarrow> (string \<rightharpoonup> string) \<Rightarrow> (js_error + groups) option" where
  "collect_groups tables parent =
     run_bind (fold_run collect_step (parent, []) tables) (\<lambda>st. Some (Inr (snd st)))"

definition swimlane_groups :: "table_info list \<Rightarrow> foreign_key list \<Rightarrow> (js_error + groups) option" where
  "swimlane_groups tables foreignKeys =
     run_bind (swimlane_unions tables foreignKeys) (collect_groups tables)"

definition grouped_groups :: "table_info list \<Rightarrow> foreign_key list \<Rightarrow> (js_error + groups) option" where
  "grouped_groups tables foreignKeys =
     run_bind (grouped_unions tables foreignKeys) (collect_groups tables)"

text \<open>
  \<^verbatim>\<open>Object.entries\<close> enumerates the keys that are array indices first, in ascending
  numeric order, and then the other keys in the order of their creation.
\<close>

definition digit_value :: "char \<Rightarrow> int" where
  "digit_value c = of_char c - 48"

definition index_value :: "string \<Rightarrow> int" where
  "index_value s = foldl (\<lambda>n c. 10 * n + digit_value c) 0 s"

definition is_array_index :: "string \<Rightarrow> bool" where
  "is_array_index s =
     (s \<noteq> [] \<and> list_all (\<lambda>c. c \<in> set ''0123456789'') s \<and>
      (s = ''0'' \<or> hd s \<noteq> CHR ''0'') \<and> index_value s \<le> 4294967294)"

definition object_entries :: "(string \<times> 'v) list \<Rightarrow> (string \<times> 'v) list" where
  "object_entries kvs =
     sort_key (\<lambda>kv. index_value (fst kv)) (filter (\<lambda>kv. is_array_index (fst kv)) kvs)
     @ filter (\<lambda>kv. \<not> is_array_index (fst kv)) kvs"

text \<open>
  A lane with its \<^verbatim>\<open>id\<close> and \<^verbatim>\<open>tables\<close>; the \<^verbatim>\<open>name\<close> and the \<^verbatim>\<open>color\<close> of a lane are
  presentation and are left out. \<^verbatim>\<open>localeCompare\<close> depends on the locale of the host and
  is a parameter.
\<close>

record lane =
  lane_id :: string
  lane_tables :: "table_info list"

definition by_size_desc :: "string \<times> table_info list \<Rightarrow> string \<times> table_info list \<Rightarrow> int" where
  "by_size_desc a b = int (length (snd b)) - int (length (snd a))"

definition swimlane_lanes ::
  "(string \<Rightarrow> string \<Rightarrow> int) \<Rightarrow> table_info list \<Rightarrow> foreign_key list
     \<Rightarrow> (js_error + lane list) option" where
  "swimlane_lanes localeCompare tables foreignKeys =
     run_bind (swimlane_groups tables foreignKeys) (\<lambda>gs.
       Some (Inr (map (\<lambda>g. \<lparr>lane_id = fst g,
                              lane_tables = js_sort (\<lambda>a b. localeCompare (name a) (name b)) (snd g)\<rparr>)
                    (js_sort by_size_desc (object_entries gs)))))"

text \<open>
  GroupedView clusters all tables of the schema, without a guard on the foreign keys, and
  sorts the groups after naming them; a group is given here by its root and its tables.
\<close>

definition grouped_clusters ::
  "table_info list \<Rightarrow> foreign_key list \<Rightarrow> (js_error + groups) option" where
  "grouped_clusters tables foreignKeys =
     run_bind (grouped_groups tables foreignKeys) (\<lambda>gs.
       Some (Inr (js_sort by_size_desc (object_entries gs))))"

section \<open>Specification terms for the clustering engine\<close>

text \<open>
  Following the parent links from \<open>x\<close> ends in the root \<open>r\<close>, a name that is its own
  parent.
\<close>

inductive reaches_root :: "(string \<rightharpoonup> string) \<Rightarrow> string \<Rightarrow> string \<Rightarrow> bool"
  for parent :: "string \<rightharpoonup> string" where
  at_root: "parent r = Some r \<Longrightarrow> reaches_root parent r r"
| via_parent: "parent x = Some y \<Longrightarrow> y \<noteq> x \<Longrightarrow> reaches_root parent y r
               \<Longrightarrow> reaches_root parent x r"

text \<open>A parent map over the names \<open>N\<close>: keys and values are in \<open>N\<close>, every name has a root.\<close>

definition closed_in :: "string set \<Rightarrow> (string \<rightharpoonup> string) \<Rightarrow> bool" where
  "closed_in N parent \<longleftrightarrow> (\<forall>x y. parent x = Some y \<longrightarrow> x \<in> N \<and> y \<in> N)"

definition rooted :: "string set \<Rightarrow> (string \<rightharpoonup> string) \<Rightarrow> bool" where
  "rooted N parent \<longleftrightarrow> closed_in N parent \<and> (\<forall>x \<in> N. \<exists>r. reaches_root parent x r)"

text \<open>Names that are not empty and are no names of inherited members of a plain object.\<close>

definition plain_keys :: "string set \<Rightarrow> bool" where
  "plain_keys N \<longleftrightarrow> [] \<notin> N \<and> N \<inter> set object_prototype_keys = {}"

text \<open>The names that the foreign keys mention.\<close>

definition fk_names :: "foreign_key list \<Rightarrow> string set" where
  "fk_names fks = sourceTable ` set fks \<union> targetTable ` set fks"

text \<open>Two names have the same root.\<close>

definition same_root :: "(string \<rightharpoonup> string) \<Rightarrow> string \<Rightarrow> string \<Rightarrow> bool" where
  "same_root parent x y \<longleftrightarrow> (\<exists>r. reaches_root parent x r \<and> reaches_root parent y r)"

text \<open>
  Modelled from the spec: the foreign-key edges within the names \<open>N\<close>, and the pairs of
  names that an undirected path of such edges connects.
\<close>

definition fk_links :: "string set \<Rightarrow> foreign_key list \<Rightarrow> (string \<times> string) set" where
  "fk_links N fks =
     {(s, t). s \<in> N \<and> t \<in> N \<and> (\<exists>fk \<in> set fks. sourceTable fk = s \<and> targetTable fk = t)}"

definition fk_connected :: "string set \<Rightarrow> foreign_key list \<Rightarrow> (string \<times> string) set" where
  "fk_connected N fks = (fk_links N fks \<union> (fk_links N fks)\<inverse>)\<^sup>*"

text \<open>Modelled from the spec: two tables belong to the same cluster.\<close>

definition same_cluster :: "groups \<Rightarrow> string \<Rightarrow> string \<Rightarrow> bool" where
  "same_cluster gs a b \<longleftrightarrow> (\<exists>g \<in> set gs. a \<in> name ` set (snd g) \<and> b \<in> name ` set (snd g))"

text \<open>
  The groups \<open>gs\<close> sort the tables \<open>ts\<close> by a key: a group holds the tables whose key is the
  id of the group, every table is in a group, and no id names two groups.
\<close>

definition grouped_by :: "(table_info \<Rightarrow> string \<Rightarrow> bool) \<Rightarrow> table_info list \<Rightarrow> groups \<Rightarrow> bool" where
  "grouped_by K ts gs \<longleftrightarrow>
     distinct (map fst gs) \<and>
     (\<forall>g \<in> set gs. \<forall>t. t \<in> set (snd g) \<longleftrightarrow> t \<in> set ts \<and> K t (fst g)) \<and>
     (\<forall>t \<in> set ts. \<exists>g \<in> set gs. t \<in> set (snd g)) \<and>
     length (concat (map snd gs)) = length ts"

section \<open>Properties of the layout glue\<close>

lemma build_graph_nodes_fold:
  "g_nodes (foldl (\<lambda>g edge. setEdge (source edge) (target edge) g) g es) = g_nodes g"
  by (induction es arbitrary: g) (simp_all add: setEdge_def)

lemma set_nodes_dom:
  "dom (g_nodes (foldl (\<lambda>g node. setNode (node_id node) (mk node) g) g ns))
     = dom (g_nodes g) \<union> node_id ` set ns"
  by (induction ns arbitrary: g) (auto simp: setNode_def)

lemma build_graph_dom:
  "dom (g_nodes (build_graph nodes edges dir w h)) = node_id ` set nodes"
  unfolding build_graph_def Let_def build_graph_nodes_fold
  by (simp add: set_nodes_dom)

lemma map_result_frame:
  assumes "\<forall>n \<in> set ns. \<exists>p. f n = Inr (n\<lparr>position := p\<rparr>)"
  shows "\<exists>ns'. map_result f ns = Inr ns' \<and> length ns' = length ns \<and>
           (\<forall>i < length ns. ns' ! i = (ns ! i)\<lparr>position := position (ns' ! i)\<rparr>)"
  using assms
proof (induction ns)
  case Nil
  then show ?case by simp
next
  case (Cons n ns)
  then obtain p where p: "f n = Inr (n\<lparr>position := p\<rparr>)" by auto
  from Cons obtain ns' where ns': "map_result f ns = Inr ns'" "length ns' = length ns"
    "\<forall>i < length ns. ns' ! i = (ns ! i)\<lparr>position := position (ns' ! i)\<rparr>"
    by auto
  have "\<forall>i < length (n # ns).
          ((n\<lparr>position := p\<rparr>) # ns') ! i
            = ((n # ns) ! i)\<lparr>position := position (((n\<lparr>position := p\<rparr>) # ns') ! i)\<rparr>"
    using ns'(3) by (auto simp: nth_Cons split: nat.splits)
  then show ?case using p ns' by auto
qed

text \<open>
  Claim C10. For every node list and edge list, \<open>getLayoutedElements\<close> returns the nodes in
  the order of the input, each one equal to the input node up to its \<open>position\<close> field,
  and the edge list it was given. The layout of the external library is any function
  that keeps the set of node keys of the graph.
\<close>

theorem getLayoutedElements_frame:
  assumes "\<And>g. dom (g_nodes (layout g)) = dom (g_nodes g)"
  shows "\<exists>ns'. getLayoutedElements layout nodes edges dir w h = Inr (ns', edges) \<and>
           length ns' = length nodes \<and>
           (\<forall>i < length nodes. ns' ! i = (nodes ! i)\<lparr>position := position (ns' ! i)\<rparr>)"
proof -
  let ?g = "layout (build_graph nodes edges dir w h)"
  have "dom (g_nodes ?g) = node_id ` set nodes"
    using assms build_graph_dom by metis
  then have "\<forall>n \<in> set nodes. \<exists>p. layout_node ?g w h n = Inr (n\<lparr>position := p\<rparr>)"
    by (auto simp: layout_node_def split: option.splits)
  from map_result_frame [OF this] show ?thesis
    by (auto simp: getLayoutedElements_def Let_def)
qed

theorem getLayoutedElements_frame_witness:
  "(\<forall>g. dom (g_nodes (g\<lparr>g_nodes := map_option (\<lambda>l. l\<lparr>lab_x := 500, lab_y := 300\<rparr>) \<circ> g_nodes g\<rparr>))
          = dom (g_nodes g)) \<and>
   (\<exists>ns'. getLayoutedElements
        (\<lambda>g. g\<lparr>g_nodes := map_option (\<lambda>l. l\<lparr>lab_x := 500, lab_y := 300\<rparr>) \<circ> g_nodes g\<rparr>)
        [\<lparr>node_id = ''users'', position = \<lparr>pos_x = 0, pos_y = 0\<rparr>,
          data = Some \<lparr>columnCount = Some 3\<rparr>\<rparr>,
         \<lparr>node_id = ''orders'', position = \<lparr>pos_x = 7, pos_y = 9\<rparr>, data = None\<rparr>]
        [\<lparr>edge_id = ''e1'', source = ''orders'', target = ''users''\<rparr>] LR 280 200
      = Inr (ns', [\<lparr>edge_id = ''e1'', source = ''orders'', target = ''users''\<rparr>]) \<and>
      length ns' = length [\<lparr>node_id = ''users'', position = \<lparr>pos_x = 0, pos_y = 0\<rparr>,
          data = Some \<lparr>columnCount = Some 3\<rparr>\<rparr>,
         \<lparr>node_id = ''orders'', position = \<lparr>pos_x = 7, pos_y = 9\<rparr>, data = None\<rparr>] \<and>
      (\<forall>i < length [\<lparr>node_id = ''users'', position = \<lparr>pos_x = 0, pos_y = 0\<rparr>,
          data = Some \<lparr>columnCount = Some 3\<rparr>\<rparr>,
         \<lparr>node_id = ''orders'', position = \<lparr>pos_x = 7, pos_y = 9\<rparr>, data = None\<rparr>].
         ns' ! i = ([\<lparr>node_id = ''users'', position = \<lparr>pos_x = 0, pos_y = 0\<rparr>,
          data = Some \<lparr>columnCount = Some 3\<rparr>\<rparr>,
         \<lparr>node_id = ''orders'', position = \<lparr>pos_x = 7, pos_y = 9\<rparr>, data = None\<rparr>] ! i)
            \<lparr>position := position (ns' ! i)\<rparr>))"
proof -
  let ?L = "\<lambda>g. g\<lparr>g_nodes := map_option (\<lambda>l. l\<lparr>lab_x := 500, lab_y := 300\<rparr>) \<circ> g_nodes g\<rparr>"
  have h: "\<And>g. dom (g_nodes (?L g)) = dom (g_nodes g)"
    by (auto simp: dom_def)
  show ?thesis
    using h getLayoutedElements_frame [of ?L, OF h] by blast
qed

section \<open>Level assignment on own properties: termination and coverage\<close>

lemma place_all_append:
  "distinct level \<Longrightarrow> set level \<inter> set placed = {} \<Longrightarrow> place_all placed level = placed @ level"
  unfolding place_all_def
  by (induction level arbitrary: placed) (auto simp: set_add_def)

lemma forced_level_props:
  "set (forced_level placed tables) = name ` set tables - set placed"
  "distinct (map name tables) \<Longrightarrow> distinct (forced_level placed tables)"
  unfolding forced_level_def by (auto simp: distinct_map_filter)

lemma ready_level_props:
  "set (ready_level_own deps placed tables) \<subseteq> name ` set tables - set placed"
  "distinct (map name tables) \<Longrightarrow> distinct (ready_level_own deps placed tables)"
  unfolding ready_level_own_def by (auto simp: distinct_map_filter)

lemma next_level_props:
  "set (next_level_own deps placed tables) \<subseteq> name ` set tables - set placed"
  "distinct (map name tables) \<Longrightarrow> distinct (next_level_own deps placed tables)"
  "next_level_own deps placed tables = [] \<Longrightarrow> name ` set tables \<subseteq> set placed"
proof -
  show "set (next_level_own deps placed tables) \<subseteq> name ` set tables - set placed"
    using forced_level_props(1) ready_level_props(1)
    unfolding next_level_own_def Let_def by (cases "ready_level_own deps placed tables = []") auto
  show "distinct (next_level_own deps placed tables)" if "distinct (map name tables)"
    using that forced_level_props(2) ready_level_props(2)
    unfolding next_level_own_def Let_def by (cases "ready_level_own deps placed tables = []") auto
  show "name ` set tables \<subseteq> set placed" if "next_level_own deps placed tables = []"
  proof (cases "ready_level_own deps placed tables = []")
    case True
    with that have "forced_level placed tables = []" by (simp add: next_level_own_def)
    then have "set (forced_level placed tables) = {}" by simp
    then show ?thesis unfolding forced_level_props(1) by blast
  next
    case False
    with that show ?thesis by (simp add: next_level_own_def)
  qed
qed

lemma placed_all_when_full:
  assumes "distinct (map name tables)" "distinct placed" "set placed \<subseteq> name ` set tables"
    and "\<not> length placed < length tables"
  shows "set placed = name ` set tables"
proof -
  have "card (name ` set tables) = length tables"
    using assms(1) by (metis distinct_card length_map set_map)
  moreover have "card (set placed) = length placed"
    using assms(2) by (simp add: distinct_card)
  ultimately have "card (name ` set tables) \<le> card (set placed)"
    using assms(4) by simp
  then show ?thesis
    using assms(3) by (metis List.finite_set card_seteq finite_imageI)
qed

lemma unplaced_when_short:
  assumes "distinct (map name tables)" "distinct placed" "length placed < length tables"
  shows "\<not> name ` set tables \<subseteq> set placed"
proof
  assume "name ` set tables \<subseteq> set placed"
  then have "card (name ` set tables) \<le> card (set placed)"
    by (simp add: card_mono)
  moreover have "card (name ` set tables) = length tables"
    using assms(1) by (metis distinct_card length_map set_map)
  moreover have "card (set placed) = length placed"
    using assms(2) by (simp add: distinct_card)
  ultimately show False using assms(3) by simp
qed

text \<open>
  The loop with an invariant \<open>Q\<close> of the level list that every iteration keeps: enough
  fuel gives a result that covers the tables and satisfies \<open>Q\<close>.
\<close>

lemma levels_loop_own_invariant:
  assumes "distinct (map name tables)"
    and step: "\<And>lv. Q lv \<Longrightarrow> distinct (concat lv) \<Longrightarrow> set (concat lv) \<subseteq> name ` set tables \<Longrightarrow>
                 length (concat lv) < length tables \<Longrightarrow>
                 Q (lv @ [next_level_own deps (concat lv) tables])"
    and "placed = concat levels" "distinct placed" "set placed \<subseteq> name ` set tables"
    and "[] \<notin> set levels" "Q levels"
    and "length tables - length placed \<le> fuel"
  shows "\<exists>ls. levels_loop_own fuel deps tables placed levels = Some ls \<and> [] \<notin> set ls \<and>
           distinct (concat ls) \<and> set (concat ls) = name ` set tables \<and> Q ls"
  using assms(3-)
proof (induction fuel arbitrary: placed levels)
  case 0
  then have "\<not> length placed < length tables" by simp
  with 0 assms(1) show ?case
    using placed_all_when_full [of tables placed] by (subst levels_loop_own.simps) simp
next
  case (Suc k)
  show ?case
  proof (cases "length placed < length tables")
    case False
    with Suc.prems assms(1) show ?thesis
      using placed_all_when_full [of tables placed] by (subst levels_loop_own.simps) simp
  next
    case True
    let ?level = "next_level_own deps placed tables"
    have sub: "set ?level \<subseteq> name ` set tables - set placed"
      and dis: "distinct ?level"
      using next_level_props(1,2) assms(1) by blast+
    have ne: "?level \<noteq> []"
      using next_level_props(3) [of deps placed tables]
        unplaced_when_short [OF assms(1) Suc.prems(2) True] by blast
    have pa: "place_all placed ?level = placed @ ?level"
      using place_all_append [OF dis] sub by blast
    have "\<exists>ls. levels_loop_own k deps tables (placed @ ?level) (levels @ [?level]) = Some ls \<and>
            [] \<notin> set ls \<and> distinct (concat ls) \<and> set (concat ls) = name ` set tables \<and> Q ls"
    proof (rule Suc.IH)
      show "placed @ ?level = concat (levels @ [?level])" using Suc.prems(1) by simp
      show "distinct (placed @ ?level)" using Suc.prems(2) dis sub by auto
      show "set (placed @ ?level) \<subseteq> name ` set tables" using Suc.prems(3) sub by auto
      show "[] \<notin> set (levels @ [?level])" using Suc.prems(4) ne by auto
      show "Q (levels @ [?level])"
        using step [of levels] Suc.prems(1,2,3,5) True by simp
      show "length tables - length (placed @ ?level) \<le> k"
        using Suc.prems(6) ne by (cases ?level) simp_all
    qed
    then show ?thesis
      using True pa by (subst levels_loop_own.simps) (simp add: Let_def)
  qed
qed

lemma concat_nonempty_length:
  "[] \<notin> set ls \<Longrightarrow> length ls \<le> length (concat ls)"
proof (induction ls)
  case Nil
  then show ?case by simp
next
  case (Cons l ls)
  then show ?case by (cases l) simp_all
qed

lemma distinct_concat_unique_index:
  assumes "distinct (concat ls)" "i < length ls" "j < length ls" "x \<in> set (ls ! i)" "x \<in> set (ls ! j)"
  shows "i = j"
  using assms
proof (induction ls arbitrary: i j)
  case Nil
  then show ?case by simp
next
  case (Cons l ls)
  show ?case
  proof (cases i; cases j)
    fix i' j' assume "i = Suc i'" "j = Suc j'"
    with Cons show ?thesis by auto
  next
    fix j' assume "i = 0" "j = Suc j'"
    with Cons.prems have "x \<in> set l" "x \<in> set (concat ls)" by auto
    with Cons.prems(1) show ?thesis by auto
  next
    fix i' assume "i = Suc i'" "j = 0"
    with Cons.prems have "x \<in> set l" "x \<in> set (concat ls)" by auto
    with Cons.prems(1) show ?thesis by auto
  qed simp
qed

text \<open>
  For a table list of length \<open>T\<close> with distinct names the loop leaves after at most \<open>T\<close>
  iterations: \<open>T\<close> iterations of fuel give a result, it has at most \<open>T\<close> levels, and every
  table is in exactly one level, once.
\<close>

lemma flow_levels_own_partition:
  assumes "distinct (map name tables)"
  shows "\<exists>ls. flow_levels_own (length tables) tables foreignKeys = Some ls \<and>
           length ls \<le> length tables \<and>
           (\<forall>t \<in> set tables. \<exists>!k. k < length ls \<and> name t \<in> set (ls ! k)) \<and>
           distinct (concat ls) \<and> set (concat ls) = name ` set tables"
proof -
  have "\<exists>ls. levels_loop_own (length tables) (build_deps_own tables foreignKeys) tables [] [] = Some ls \<and>
          [] \<notin> set ls \<and> distinct (concat ls) \<and> set (concat ls) = name ` set tables"
    using levels_loop_own_invariant [OF assms, where Q = "\<lambda>_. True" and placed = "[]"
        and levels = "[]" and fuel = "length tables" and deps = "build_deps_own tables foreignKeys"]
    by simp
  then obtain ls where ls: "flow_levels_own (length tables) tables foreignKeys = Some ls"
    "[] \<notin> set ls" "distinct (concat ls)" "set (concat ls) = name ` set tables"
    unfolding flow_levels_own_def by blast
  have "length (concat ls) = card (set (concat ls))"
    using ls(3) by (simp only: distinct_card)
  also have "\<dots> = card (set (map name tables))"
    using ls(4) by simp
  also have "\<dots> = length tables"
    using assms by (simp only: distinct_card length_map)
  finally have "length (concat ls) = length tables" .
  then have len: "length ls \<le> length tables"
    using concat_nonempty_length [OF ls(2)] by simp
  have uniq: "\<forall>t \<in> set tables. \<exists>!k. k < length ls \<and> name t \<in> set (ls ! k)"
  proof
    fix t assume "t \<in> set tables"
    then have "name t \<in> set (concat ls)" using ls(4) by blast
    then obtain l where "l \<in> set ls" "name t \<in> set l" by auto
    then obtain k where k: "k < length ls" "name t \<in> set (ls ! k)"
      by (metis in_set_conv_nth)
    show "\<exists>!k. k < length ls \<and> name t \<in> set (ls ! k)"
    proof (rule ex1I [of _ k])
      show "k < length ls \<and> name t \<in> set (ls ! k)" using k by simp
    next
      fix j assume "j < length ls \<and> name t \<in> set (ls ! j)"
      then show "j = k"
        using distinct_concat_unique_index [OF ls(3), of j k "name t"] k by blast
    qed
  qed
  show ?thesis
  proof (intro exI conjI)
    show "flow_levels_own (length tables) tables foreignKeys = Some ls" by (fact ls(1))
    show "length ls \<le> length tables" by (fact len)
    show "\<forall>t \<in> set tables. \<exists>!k. k < length ls \<and> name t \<in> set (ls ! k)" by (fact uniq)
    show "distinct (concat ls)" by (fact ls(3))
    show "set (concat ls) = name ` set tables" by (fact ls(4))
  qed
qed

text \<open>
  Why the names have to be distinct: \<^verbatim>\<open>placed\<close> is a set of names and is compared with
  the length of the table list, so with a name that occurs twice the loop never leaves.
\<close>

lemma levels_loop_own_stuck:
  "levels_loop_own n deps [mk_table ''A'', mk_table ''A''] [''A''] levels = None"
proof (induction n arbitrary: levels)
  case 0
  show ?case by (subst levels_loop_own.simps) simp
next
  case (Suc n)
  have "next_level_own deps [''A''] [mk_table ''A'', mk_table ''A''] = []"
    by (simp add: next_level_own_def ready_level_own_def forced_level_def mk_table_def)
  then show ?case
    using Suc by (subst levels_loop_own.simps) (simp add: place_all_def)
qed

lemma flow_levels_own_duplicate_names:
  "flow_levels_own n [mk_table ''A'', mk_table ''A''] [] = None"
proof (cases n)
  case 0
  then show ?thesis by (simp add: flow_levels_own_def levels_loop_own.simps)
next
  case (Suc k)
  have "next_level_own (build_deps_own [mk_table ''A'', mk_table ''A''] []) [] [mk_table ''A'', mk_table ''A'']
          = [''A'', ''A'']"
    by (simp add: next_level_own_def ready_level_own_def forced_level_def mk_table_def unmet_own_def
        build_deps_own_def init_deps_own_def)
  moreover have "place_all [] [''A'', ''A''] = [''A'']"
    by (simp add: place_all_def set_add_def)
  ultimately show ?thesis
    using Suc levels_loop_own_stuck
    by (simp add: flow_levels_own_def levels_loop_own.simps [of "Suc k"])
qed

section \<open>Level assignment on own properties: dependency order\<close>

lemma init_deps_fold:
  "foldl (\<lambda>deps t. deps(name t \<mapsto> [])) d tables n
     = (if n \<in> name ` set tables then Some [] else d n)"
  by (induction tables arbitrary: d) auto

lemma init_deps_own_lookup:
  "init_deps_own tables n = (if n \<in> name ` set tables then Some [] else None)"
  by (simp add: init_deps_own_def init_deps_fold)

lemma add_dep_other:
  "sourceTable fk \<noteq> n \<Longrightarrow> add_dep_own d fk n = d n"
  by (cases "d (sourceTable fk)") (simp_all add: add_dep_own_def)

lemma add_dep_same:
  "d (sourceTable fk) = Some s \<Longrightarrow>
     add_dep_own d fk (sourceTable fk) = Some (set_add (targetTable fk) s)"
  by (simp add: add_dep_own_def)

lemma fk_targets_Cons_same:
  "sourceTable fk = n \<Longrightarrow>
     {targetTable fk' |fk'. fk' \<in> set (fk # fks) \<and> sourceTable fk' = n}
       = insert (targetTable fk) {targetTable fk' |fk'. fk' \<in> set fks \<and> sourceTable fk' = n}"
  by auto

lemma fk_targets_Cons_other:
  "sourceTable fk \<noteq> n \<Longrightarrow>
     {targetTable fk' |fk'. fk' \<in> set (fk # fks) \<and> sourceTable fk' = n}
       = {targetTable fk' |fk'. fk' \<in> set fks \<and> sourceTable fk' = n}"
  by auto

lemma set_set_add: "set (set_add v s) = insert v (set s)"
  by (simp add: set_add_def insert_absorb)

lemma add_dep_fold_Some:
  "d n = Some s \<Longrightarrow>
     \<exists>s'. foldl add_dep_own d fks n = Some s' \<and>
          set s' = set s \<union> {targetTable fk |fk. fk \<in> set fks \<and> sourceTable fk = n}"
proof (induction fks arbitrary: d s)
  case Nil
  then show ?case by simp
next
  case (Cons fk fks)
  let ?T = "{targetTable fk' |fk'. fk' \<in> set fks \<and> sourceTable fk' = n}"
  show ?case
  proof (cases "sourceTable fk = n")
    case True
    have "add_dep_own d fk n = Some (set_add (targetTable fk) s)"
      using Cons.prems add_dep_same [of d fk s] True by simp
    from Cons.IH [of "add_dep_own d fk" "set_add (targetTable fk) s", OF this]
    obtain s' where s': "foldl add_dep_own (add_dep_own d fk) fks n = Some s'"
      "set s' = set (set_add (targetTable fk) s) \<union> ?T"
      by (elim exE conjE)
    have e: "set s' = set s \<union> {targetTable fk' |fk'. fk' \<in> set (fk # fks) \<and> sourceTable fk' = n}"
      unfolding s'(2) set_set_add fk_targets_Cons_same [OF True] by simp
    show ?thesis
    proof (intro exI conjI)
      show "foldl add_dep_own d (fk # fks) n = Some s'" using s'(1) by simp
      show "set s' = set s \<union> {targetTable fk' |fk'. fk' \<in> set (fk # fks) \<and> sourceTable fk' = n}"
        by (fact e)
    qed
  next
    case False
    then have "add_dep_own d fk n = Some s"
      using Cons.prems add_dep_other [of fk n d] by simp
    from Cons.IH [of "add_dep_own d fk" s, OF this]
    obtain s' where s': "foldl add_dep_own (add_dep_own d fk) fks n = Some s'"
      "set s' = set s \<union> ?T"
      by (elim exE conjE)
    have e: "set s' = set s \<union> {targetTable fk' |fk'. fk' \<in> set (fk # fks) \<and> sourceTable fk' = n}"
      unfolding s'(2) fk_targets_Cons_other [OF False] by simp
    show ?thesis
    proof (intro exI conjI)
      show "foldl add_dep_own d (fk # fks) n = Some s'" using s'(1) by simp
      show "set s' = set s \<union> {targetTable fk' |fk'. fk' \<in> set (fk # fks) \<and> sourceTable fk' = n}"
        by (fact e)
    qed
  qed
qed

lemma build_deps_lookup:
  assumes "n \<in> name ` set tables"
  shows "\<exists>ds. build_deps_own tables fks n = Some ds \<and>
          set ds = {targetTable fk |fk. fk \<in> set fks \<and> sourceTable fk = n}"
proof -
  have "init_deps_own tables n = Some []" using assms by (simp add: init_deps_own_lookup)
  from add_dep_fold_Some [of "init_deps_own tables" n "[]" fks, OF this]
  show ?thesis by (simp add: build_deps_own_def)
qed

lemma finite_fk_edges: "finite (fk_edges N fks)"
proof -
  have "fk_edges N fks \<subseteq> (\<lambda>fk. (sourceTable fk, targetTable fk)) ` set fks"
    unfolding fk_edges_def by auto
  then show ?thesis by (rule finite_subset) simp
qed

lemma fk_edgesI:
  "fk \<in> set fks \<Longrightarrow> sourceTable fk \<in> N \<Longrightarrow> (sourceTable fk, targetTable fk) \<in> fk_edges N fks"
  unfolding fk_edges_def by auto

lemma build_deps_mem:
  assumes "n \<in> name ` set tables"
  shows "\<exists>ds. build_deps_own tables fks n = Some ds \<and>
          (\<forall>d. d \<in> set ds \<longleftrightarrow> (\<exists>fk \<in> set fks. sourceTable fk = n \<and> targetTable fk = d))"
proof -
  obtain ds where ds: "build_deps_own tables fks n = Some ds"
    "set ds = {targetTable fk |fk. fk \<in> set fks \<and> sourceTable fk = n}"
    using build_deps_lookup [OF assms, of fks] by blast
  have "\<forall>d. d \<in> set ds \<longleftrightarrow> (\<exists>fk \<in> set fks. sourceTable fk = n \<and> targetTable fk = d)"
    unfolding ds(2) by auto
  with ds(1) show ?thesis by (intro exI conjI)
qed

lemma ready_level_no_stall:
  assumes closed: "\<forall>fk \<in> set fks. sourceTable fk \<in> name ` set tables \<longrightarrow>
                     targetTable fk \<in> name ` set tables"
    and acyc: "acyclic (fk_edges (name ` set tables) fks)"
    and open_tables: "\<not> name ` set tables \<subseteq> set placed"
  shows "ready_level_own (build_deps_own tables fks) placed tables \<noteq> []"
proof -
  let ?N = "name ` set tables"
  let ?E = "fk_edges ?N fks"
  let ?U = "?N - set placed"
  have wf: "wf (?E\<inverse>)"
    using finite_fk_edges acyc by (rule finite_acyclic_wf_converse)
  obtain u where u: "u \<in> ?U" using open_tables by blast
  have "\<exists>z \<in> ?U. \<forall>y. (y, z) \<in> ?E\<inverse> \<longrightarrow> y \<notin> ?U"
    using wf [unfolded wf_eq_minimal, rule_format, of u ?U] u .
  then obtain z where z: "z \<in> ?U"
    and zmin: "\<And>y. (y, z) \<in> ?E\<inverse> \<Longrightarrow> y \<notin> ?U"
    by blast
  have zN: "z \<in> ?N" and zP: "z \<notin> set placed" using z by blast+
  obtain ds where ds: "build_deps_own tables fks z = Some ds"
    and dsm: "\<And>d. d \<in> set ds \<Longrightarrow> \<exists>fk \<in> set fks. sourceTable fk = z \<and> targetTable fk = d"
    using build_deps_mem [OF zN, of fks] by blast
  have "d \<in> set placed" if "d \<in> set ds" for d
  proof -
    from dsm [OF that] obtain fk where fk: "fk \<in> set fks" "sourceTable fk = z" "targetTable fk = d"
      by blast
    have "(sourceTable fk, targetTable fk) \<in> ?E"
      using fk(1) zN fk(2) by (intro fk_edgesI) simp_all
    then have "(d, z) \<in> ?E\<inverse>" using fk(2,3) by simp
    then have "d \<notin> ?U" by (rule zmin)
    moreover have "d \<in> ?N" using closed fk zN by blast
    ultimately show ?thesis by blast
  qed
  then have um: "unmet_own (build_deps_own tables fks) placed z = []"
    by (simp add: unmet_own_def ds filter_empty_conv)
  obtain t where t: "t \<in> set tables" "name t = z" using zN by blast
  have "t \<in> set (filter (\<lambda>t. name t \<notin> set placed \<and>
                     unmet_own (build_deps_own tables fks) placed (name t) = []) tables)"
    using t zP um by simp
  then have "name t \<in> set (ready_level_own (build_deps_own tables fks) placed tables)"
    unfolding ready_level_own_def by (simp only: set_map) (rule imageI)
  then show ?thesis by (metis empty_iff empty_set)
qed

lemma levels_ordered_step:
  assumes closed: "\<forall>fk \<in> set fks. sourceTable fk \<in> name ` set tables \<longrightarrow>
                     targetTable fk \<in> name ` set tables"
    and acyc: "acyclic (fk_edges (name ` set tables) fks)"
    and q: "levels_ordered fks lv" and dc: "distinct (concat lv)"
    and sub: "set (concat lv) \<subseteq> name ` set tables"
    and short: "length (concat lv) < length tables"
    and dist: "distinct (map name tables)"
  shows "levels_ordered fks (lv @ [next_level_own (build_deps_own tables fks) (concat lv) tables])"
proof -
  let ?deps = "build_deps_own tables fks"
  let ?placed = "concat lv"
  let ?nl = "next_level_own ?deps ?placed tables"
  have "\<not> name ` set tables \<subseteq> set ?placed"
    using unplaced_when_short [OF dist dc short] .
  then have ne: "ready_level_own ?deps ?placed tables \<noteq> []"
    by (rule ready_level_no_stall [OF closed acyc])
  then have nl: "?nl = ready_level_own ?deps ?placed tables"
    by (simp add: next_level_own_def)
  show ?thesis
    unfolding levels_ordered_def
  proof (intro allI impI ballI)
    fix k fk
    assume k: "k < length (lv @ [?nl])" and fk: "fk \<in> set fks"
      and src: "sourceTable fk \<in> set ((lv @ [?nl]) ! k)"
    show "\<exists>j < k. targetTable fk \<in> set ((lv @ [?nl]) ! j)"
    proof (cases "k < length lv")
      case True
      then have "sourceTable fk \<in> set (lv ! k)" using src by (simp add: nth_append)
      then obtain j where j: "j < k" "targetTable fk \<in> set (lv ! j)"
        using q True fk unfolding levels_ordered_def by blast
      then have "targetTable fk \<in> set ((lv @ [?nl]) ! j)"
        using True by (simp add: nth_append)
      with j(1) show ?thesis by blast
    next
      case False
      then have keq: "k = length lv" using k by simp
      then have "sourceTable fk \<in> set (ready_level_own ?deps ?placed tables)"
        using src nl by simp
      then have inN: "sourceTable fk \<in> name ` set tables"
        and um: "unmet_own ?deps ?placed (sourceTable fk) = []"
        unfolding ready_level_own_def by auto
      obtain ds where ds: "?deps (sourceTable fk) = Some ds"
        "set ds = {targetTable fk' |fk'. fk' \<in> set fks \<and> sourceTable fk' = sourceTable fk}"
        using build_deps_lookup [OF inN] by blast
      have "targetTable fk \<in> set ds" using ds(2) fk by blast
      then have "targetTable fk \<in> set ?placed"
        using um ds(1) by (simp add: unmet_own_def filter_empty_conv)
      then obtain l where "l \<in> set lv" "targetTable fk \<in> set l" by auto
      then obtain j where j: "j < length lv" "targetTable fk \<in> set (lv ! j)"
        by (metis in_set_conv_nth)
      then have "targetTable fk \<in> set ((lv @ [?nl]) ! j)"
        by (simp add: nth_append)
      with j(1) keq show ?thesis by blast
    qed
  qed
qed

lemma flow_levels_own_strict_when_closed:
  assumes dist: "distinct (map name tables)"
    and closed: "\<forall>fk \<in> set fks. sourceTable fk \<in> name ` set tables \<longrightarrow>
                     targetTable fk \<in> name ` set tables"
    and acyc: "acyclic (fk_edges (name ` set tables) fks)"
  shows "\<exists>ls. flow_levels_own (length tables) tables fks = Some ls \<and>
           set (concat ls) = name ` set tables \<and> levels_ordered fks ls"
proof -
  have "\<exists>ls. levels_loop_own (length tables) (build_deps_own tables fks) tables [] [] = Some ls \<and>
          [] \<notin> set ls \<and> distinct (concat ls) \<and> set (concat ls) = name ` set tables \<and>
          levels_ordered fks ls"
  proof (rule levels_loop_own_invariant [OF dist])
    show "levels_ordered fks []" by (simp add: levels_ordered_def)
    show "levels_ordered fks (lv @ [next_level_own (build_deps_own tables fks) (concat lv) tables])"
      if "levels_ordered fks lv" "distinct (concat lv)" "set (concat lv) \<subseteq> name ` set tables"
        "length (concat lv) < length tables" for lv
      using levels_ordered_step [OF closed acyc that dist] .
  qed simp_all
  then show ?thesis unfolding flow_levels_own_def by blast
qed


section \<open>Level assignment: the reads of the plain object\<close>

lemma js_get_own: "obj k = Some v \<Longrightarrow> js_get obj k = Own v"
  by (simp add: js_get_def)

lemma js_get_undefined:
  "obj k = None \<Longrightarrow> k \<notin> set object_prototype_keys \<Longrightarrow> js_get obj k = Undefined"
  by (simp add: js_get_def)

lemma js_get_inherited:
  "obj k = None \<Longrightarrow> k \<in> set object_prototype_keys \<Longrightarrow> js_get obj k = Inherited"
  by (simp add: js_get_def)

lemma new_dep_fold:
  "''__proto__'' \<notin> name ` set tables \<Longrightarrow>
     fold_result new_dep d tables = Inr (foldl (\<lambda>deps t. deps(name t \<mapsto> [])) d tables)"
  by (induction tables arbitrary: d) (auto simp: new_dep_def)

lemma init_deps_plain:
  "''__proto__'' \<notin> name ` set tables \<Longrightarrow> init_deps tables = Inr (init_deps_own tables)"
  by (simp add: init_deps_def init_deps_own_def new_dep_fold)

lemma add_dep_plain:
  assumes "sourceTable fk \<in> dom d \<or> sourceTable fk \<notin> set object_prototype_keys"
  shows "add_dep d fk = Inr (add_dep_own d fk)"
proof (cases "d (sourceTable fk)")
  case None
  then have "js_get d (sourceTable fk) = Undefined"
    using assms by (intro js_get_undefined) auto
  with None show ?thesis by (simp add: add_dep_def add_dep_own_def)
next
  case (Some s)
  then have "js_get d (sourceTable fk) = Own s" by (rule js_get_own)
  with Some show ?thesis by (simp add: add_dep_def add_dep_own_def)
qed

lemma dom_add_dep_own: "dom (add_dep_own d fk) = dom d"
  by (cases "d (sourceTable fk)") (auto simp: add_dep_own_def)

lemma add_dep_fold_plain:
  "\<forall>fk \<in> set fks. sourceTable fk \<in> dom d \<or> sourceTable fk \<notin> set object_prototype_keys \<Longrightarrow>
     fold_result add_dep d fks = Inr (foldl add_dep_own d fks)"
proof (induction fks arbitrary: d)
  case Nil
  show ?case by simp
next
  case (Cons fk fks)
  have 1: "add_dep d fk = Inr (add_dep_own d fk)"
    using Cons.prems by (intro add_dep_plain) simp
  have 2: "fold_result add_dep (add_dep_own d fk) fks = Inr (foldl add_dep_own (add_dep_own d fk) fks)"
    using Cons.prems by (intro Cons.IH) (simp add: dom_add_dep_own)
  show ?case by (simp add: 1 2)
qed

lemma dom_add_dep_own_fold: "dom (foldl add_dep_own d fks) = dom d"
  by (induction fks arbitrary: d) (simp_all add: dom_add_dep_own)

lemma dom_init_deps_own: "dom (init_deps_own tables) = name ` set tables"
  by (auto simp: dom_def init_deps_own_lookup)

lemma dom_build_deps_own: "dom (build_deps_own tables fks) = name ` set tables"
  by (simp add: build_deps_own_def dom_add_dep_own_fold dom_init_deps_own)

lemma build_deps_plain:
  assumes "plain_sources tables fks"
  shows "build_deps tables fks = Inr (build_deps_own tables fks)"
proof -
  have 1: "init_deps tables = Inr (init_deps_own tables)"
    using assms by (intro init_deps_plain) (simp add: plain_sources_def)
  have 2: "fold_result add_dep (init_deps_own tables) fks
             = Inr (foldl add_dep_own (init_deps_own tables) fks)"
    using assms by (intro add_dep_fold_plain) (simp add: plain_sources_def dom_init_deps_own)
  show ?thesis by (simp add: build_deps_def build_deps_own_def 1 2)
qed

lemma unmet_plain: "n \<in> dom d \<Longrightarrow> unmet d placed n = Inr (unmet_own d placed n)"
  by (auto simp: unmet_def unmet_own_def js_get_def)

lemma ready_step_fold:
  "name ` set ts \<subseteq> dom d \<Longrightarrow>
     fold_result (ready_step d placed) acc ts = Inr (acc @ ready_level_own d placed ts)"
proof (induction ts arbitrary: acc)
  case Nil
  show ?case by (simp add: ready_level_own_def)
next
  case (Cons t ts)
  have u: "unmet d placed (name t) = Inr (unmet_own d placed (name t))"
    using Cons.prems by (intro unmet_plain) auto
  have ih: "fold_result (ready_step d placed) acc' ts = Inr (acc' @ ready_level_own d placed ts)"
    for acc' using Cons.prems by (intro Cons.IH) auto
  have st: "ready_step d placed acc t
              = Inr (if name t \<notin> set placed \<and> unmet_own d placed (name t) = []
                     then acc @ [name t] else acc)"
    by (simp add: ready_step_def u)
  show ?case
    unfolding fold_result.simps st sum.case ih by (simp add: ready_level_own_def)
qed

lemma ready_level_plain:
  "name ` set tables \<subseteq> dom d \<Longrightarrow>
     ready_level d placed tables = Inr (ready_level_own d placed tables)"
  by (simp add: ready_level_def ready_step_fold)

lemma next_level_plain:
  "name ` set tables \<subseteq> dom d \<Longrightarrow>
     next_level d placed tables = Inr (next_level_own d placed tables)"
  by (simp add: next_level_def next_level_own_def ready_level_plain)

lemma levels_loop_plain:
  assumes "name ` set tables \<subseteq> dom d"
  shows "levels_loop fuel d tables placed levels
           = map_option Inr (levels_loop_own fuel d tables placed levels)"
proof (induction fuel arbitrary: placed levels)
  case 0
  show ?case by (subst levels_loop.simps, subst levels_loop_own.simps) simp
next
  case (Suc k)
  show ?case
    by (subst levels_loop.simps, subst levels_loop_own.simps)
       (simp add: next_level_plain [OF assms] Suc Let_def)
qed

text \<open>
  When no table is named \<^verbatim>\<open>__proto__\<close> and every foreign key has a source that is a listed
  table or no inherited key, every read of \<^verbatim>\<open>deps\<close> finds an own property or nothing.
\<close>

lemma flow_levels_plain:
  assumes "plain_sources tables fks"
  shows "flow_levels fuel tables fks = map_option Inr (flow_levels_own fuel tables fks)"
  by (simp add: flow_levels_def flow_levels_own_def build_deps_plain [OF assms]
      levels_loop_plain dom_build_deps_own)

section \<open>Level assignment: termination, coverage and order\<close>

text \<open>
  For a table list of length \<open>T\<close> with distinct names, none of them \<^verbatim>\<open>__proto__\<close>, and
  foreign keys whose sources are listed tables or no inherited keys, the level loop leaves
  after at most \<open>T\<close> iterations: \<open>T\<close> iterations of fuel give a level list, it has at most
  \<open>T\<close> levels, and every table is in exactly one level, once.
\<close>

lemma flow_levels_terminates:
  assumes "distinct (map name tables)" and "plain_sources tables foreignKeys"
  shows "\<exists>ls. flow_levels (length tables) tables foreignKeys = Some (Inr ls) \<and>
           length ls \<le> length tables \<and>
           (\<forall>t \<in> set tables. \<exists>!k. k < length ls \<and> name t \<in> set (ls ! k)) \<and>
           distinct (concat ls) \<and> set (concat ls) = name ` set tables"
proof -
  obtain ls where ls: "flow_levels_own (length tables) tables foreignKeys = Some ls"
    and rest: "length ls \<le> length tables \<and>
           (\<forall>t \<in> set tables. \<exists>!k. k < length ls \<and> name t \<in> set (ls ! k)) \<and>
           distinct (concat ls) \<and> set (concat ls) = name ` set tables"
    using flow_levels_own_partition [OF assms(1), of foreignKeys] by (elim exE conjE) blast
  have "flow_levels (length tables) tables foreignKeys = Some (Inr ls)"
    by (simp add: flow_levels_plain [OF assms(2)] ls)
  with rest show ?thesis by blast
qed

text \<open>
  The example of the specification: tables \<open>A, B, C\<close> with \<open>B \<rightarrow> A\<close> and \<open>C \<rightarrow> A\<close>.
\<close>

lemma flow_levels_example:
  "flow_levels 3 [mk_table ''A'', mk_table ''B'', mk_table ''C'']
     [mk_fk ''B'' ''a_id'' ''A'' ''id'', mk_fk ''C'' ''a_id'' ''A'' ''id'']
     = Some (Inr [[''A''], [''B'', ''C'']])"
  by code_simp

text \<open>
  Why the names have to be distinct: \<^verbatim>\<open>placed\<close> is a set of names and is compared with
  the length of the table list, so with a name that occurs twice the loop never leaves.
\<close>

lemma flow_levels_duplicate_names_diverge:
  "flow_levels n [mk_table ''A'', mk_table ''A''] [] = None"
proof -
  have "plain_sources [mk_table ''A'', mk_table ''A''] []"
    by (simp add: plain_sources_def mk_table_def)
  then show ?thesis
    by (simp add: flow_levels_plain flow_levels_own_duplicate_names)
qed

text \<open>
  Level assignment orders an acyclic dependency graph when every foreign key of a listed
  table points to a listed table: the loop then never stalls, and every table is placed
  strictly above the tables it depends on.
\<close>

lemma flow_levels_strict_when_closed:
  assumes dist: "distinct (map name tables)"
    and plain: "plain_sources tables fks"
    and closed: "\<forall>fk \<in> set fks. sourceTable fk \<in> name ` set tables \<longrightarrow>
                     targetTable fk \<in> name ` set tables"
    and acyc: "acyclic (fk_edges (name ` set tables) fks)"
  shows "\<exists>ls. flow_levels (length tables) tables fks = Some (Inr ls) \<and>
           set (concat ls) = name ` set tables \<and> levels_ordered fks ls"
proof -
  obtain ls where ls: "flow_levels_own (length tables) tables fks = Some ls"
    and rest: "set (concat ls) = name ` set tables" "levels_ordered fks ls"
    using flow_levels_own_strict_when_closed [OF dist closed acyc] by (elim exE conjE)
  have "flow_levels (length tables) tables fks = Some (Inr ls)"
    by (simp add: flow_levels_plain [OF plain] ls)
  with rest show ?thesis by (intro exI conjI)
qed

text \<open>
  Claim C1, evaluated where it fails. The search filter keeps \<open>race\<close> and hides the table
  \<open>constructor\<close>, the source of a foreign key. \<^verbatim>\<open>deps\<close> is a plain object, so the guard
  \<^verbatim>\<open>if (deps[fk.sourceTable])\<close> finds the inherited \<^verbatim>\<open>Object.prototype.constructor\<close>, and
  the call of its \<^verbatim>\<open>add\<close> raises \<^verbatim>\<open>TypeError\<close> before the loop starts: no level list is
  returned. A hidden source with another name, \<open>driver\<close>, is skipped.
\<close>

theorem flow_levels_inherited_source:
  "flow_levels 1 [mk_table ''race''] [mk_fk ''constructor'' ''country_id'' ''country'' ''id'']
     = Some (Inl TypeError) \<and>
   flow_levels 1 [mk_table ''race''] [mk_fk ''driver'' ''country_id'' ''country'' ''id'']
     = Some (Inr [[''race'']])"
  by code_simp

text \<open>
  Claim C2, evaluated where it fails. The search filter keeps \<open>order_items\<close> and \<open>orders\<close>
  and hides \<open>users\<close>. The dependency graph is acyclic, but \<^verbatim>\<open>deps\<close> keeps the hidden
  target, \<open>orders\<close> is never ready, the loop stalls in its first iteration and places both
  tables in level 0, although \<open>order_items\<close> depends on \<open>orders\<close>.
\<close>

theorem flow_levels_hidden_dependency:
  "flow_levels 2 [mk_table ''order_items'', mk_table ''orders'']
     [mk_fk ''orders'' ''user_id'' ''users'' ''id'',
      mk_fk ''order_items'' ''order_id'' ''orders'' ''id'']
     = Some (Inr [[''order_items'', ''orders'']])"
  by code_simp

text \<open>The dependency graph of that input is acyclic, and its level list is not ordered.\<close>

lemma hidden_dependency_acyclic:
  "acyclic (fk_edges UNIV [mk_fk ''orders'' ''user_id'' ''users'' ''id'',
                           mk_fk ''order_items'' ''order_id'' ''orders'' ''id''])"
  by (rule acyclicI_order
        [where f = "\<lambda>s. if s = ''users'' then 0 else if s = ''orders'' then 1 else (2::nat)"])
     (auto simp: fk_edges_def mk_fk_def)

lemma hidden_dependency_not_ordered:
  "\<not> levels_ordered [mk_fk ''orders'' ''user_id'' ''users'' ''id'',
                      mk_fk ''order_items'' ''order_id'' ''orders'' ''id'']
        [[''order_items'', ''orders'']]"
  by (simp add: levels_ordered_def mk_fk_def)

text \<open>
  Claim C9, evaluated where it fails. A foreign key from \<open>B\<close> to a table \<open>X\<close> that is not
  in the table list moves \<open>B\<close> from level 0 to level 1: the dependency sets keep the target.
\<close>

theorem flow_levels_absent_target:
  "flow_levels 2 [mk_table ''A'', mk_table ''B''] [mk_fk ''B'' ''x_id'' ''X'' ''id'']
     = Some (Inr [[''A''], [''B'']]) \<and>
   flow_levels 2 [mk_table ''A'', mk_table ''B''] [] = Some (Inr [[''A'', ''B'']])"
  by code_simp

section \<open>Connection matrix: symmetry, diagonal and total\<close>

lemma init_row_fold:
  "foldl (\<lambda>row t2. js_put row (name t2) (Num 0)) r tables b
     = (if b \<in> name ` set tables \<and> b \<noteq> ''__proto__'' then Some (Num 0) else r b)"
  by (induction tables arbitrary: r) (auto simp: js_put_def)

lemma init_row_lookup:
  "init_row tables b
     = (if b \<in> name ` set tables \<and> b \<noteq> ''__proto__'' then Some (Num 0) else None)"
  by (simp add: init_row_def init_row_fold)

lemma new_row_fold:
  "''__proto__'' \<notin> name ` set ts \<Longrightarrow>
     fold_result (new_row tables) m0 ts = Inr (foldl (\<lambda>m t. m(name t \<mapsto> init_row tables)) m0 ts)"
  by (induction ts arbitrary: m0) (auto simp: new_row_def)

lemma init_matrix_fold:
  "foldl (\<lambda>m t. m(name t \<mapsto> r)) m0 tables a
     = (if a \<in> name ` set tables then Some r else m0 a)"
  by (induction tables arbitrary: m0) auto

lemma init_matrix_counts:
  assumes "''__proto__'' \<notin> name ` set tables"
  shows "\<exists>m. init_matrix tables = Inr m \<and> matrix_counts (name ` set tables) m (\<lambda>a b. 0)"
proof -
  let ?m = "foldl (\<lambda>m t. m(name t \<mapsto> init_row tables)) Map.empty tables"
  have 1: "init_matrix tables = Inr ?m"
    by (simp add: init_matrix_def new_row_fold [OF assms])
  have 2: "matrix_counts (name ` set tables) ?m (\<lambda>a b. 0)"
    unfolding matrix_counts_def using assms
    by (auto simp: init_matrix_fold init_row_lookup)
  from 1 2 show ?thesis by blast
qed

lemma matrix_counts_cong:
  assumes "matrix_counts N m c" "\<And>a b. a \<in> N \<Longrightarrow> b \<in> N \<Longrightarrow> c a b = c' a b"
  shows "matrix_counts N m c'"
proof -
  have "\<exists>row. m a = Some row \<and> (\<forall>b. row b = (if b \<in> N then Some (Num (c' a b)) else None))"
    if a: "a \<in> N" for a
  proof -
    from assms(1) a obtain row where row: "m a = Some row"
      "\<forall>b. row b = (if b \<in> N then Some (Num (c a b)) else None)"
      unfolding matrix_counts_def by blast
    have "\<forall>b. row b = (if b \<in> N then Some (Num (c' a b)) else None)"
      using row(2) assms(2) [OF a] by simp
    with row(1) show ?thesis by blast
  qed
  moreover have "\<forall>a. a \<notin> N \<longrightarrow> m a = None"
    using assms(1) unfolding matrix_counts_def by blast
  ultimately show ?thesis unfolding matrix_counts_def by blast
qed

lemma bump_counts:
  assumes mc: "matrix_counts N m c" and a: "a \<in> N" and b: "b \<in> N"
    and np: "''__proto__'' \<notin> N"
  shows "\<exists>m'. bump m a b = Inr m' \<and>
           matrix_counts N m' (\<lambda>x y. if x = a \<and> y = b then Suc (c x y) else c x y)"
proof -
  from mc a obtain row where row: "m a = Some row"
    "\<forall>y. row y = (if y \<in> N then Some (Num (c a y)) else None)"
    unfolding matrix_counts_def by blast
  let ?row' = "row(b \<mapsto> Num (Suc (c a b)))"
  let ?m' = "m(a \<mapsto> ?row')"
  have rb: "js_get row b = Own (Num (c a b))"
    using row(2) b by (intro js_get_own) simp
  have inc: "incr (js_get row b) = Num (Suc (c a b))"
    by (simp add: rb incr_def)
  have "b \<noteq> ''__proto__''" using b np by blast
  then have put: "js_put row b (incr (js_get row b)) = ?row'"
    by (simp add: js_put_def inc)
  have bm: "bump m a b = Inr ?m'"
    by (simp add: bump_def js_get_own [of m a row, OF row(1)] put)
  have "matrix_counts N ?m' (\<lambda>x y. if x = a \<and> y = b then Suc (c x y) else c x y)"
    unfolding matrix_counts_def
  proof (intro conjI allI ballI impI)
    fix x assume "x \<notin> N"
    then show "?m' x = None" using mc a unfolding matrix_counts_def by auto
  next
    fix x assume x: "x \<in> N"
    show "\<exists>r. ?m' x = Some r \<and>
            (\<forall>y. r y = (if y \<in> N then Some (Num (if x = a \<and> y = b then Suc (c x y) else c x y))
                        else None))"
    proof (cases "x = a")
      case True
      have "\<forall>y. ?row' y = (if y \<in> N then Some (Num (if x = a \<and> y = b then Suc (c x y) else c x y))
                        else None)"
        using row(2) b True by simp
      then show ?thesis using True by simp
    next
      case False
      from mc x obtain r where r: "m x = Some r"
        "\<forall>y. r y = (if y \<in> N then Some (Num (c x y)) else None)"
        unfolding matrix_counts_def by blast
      then show ?thesis using False by simp
    qed
  qed
  with bm show ?thesis by blast
qed

lemma links_single:
  "links [fk] a b = (if sourceTable fk = a \<and> targetTable fk = b then 1 else 0)"
  by (simp add: links_def)

lemma links_Cons:
  "links (fk # fks) a b = links [fk] a b + links fks a b"
  by (simp add: links_def)

lemma matrix_counts_row:
  assumes "matrix_counts N m c" "a \<in> N"
  shows "\<exists>row. m a = Some row \<and> (\<forall>b. row b = (if b \<in> N then Some (Num (c a b)) else None))"
  using assms unfolding matrix_counts_def by blast

lemma matrix_counts_outside:
  assumes "matrix_counts N m c" "a \<notin> N"
  shows "m a = None"
  using assms unfolding matrix_counts_def by blast

lemma add_connection_inside:
  assumes mc: "matrix_counts N m c"
    and s: "sourceTable fk \<in> N" and t: "targetTable fk \<in> N"
    and np: "''__proto__'' \<notin> N"
  shows "\<exists>m' cd'. add_connection (m, cd) fk = Inr (m', cd') \<and>
           matrix_counts N m' (\<lambda>x y. c x y + links [fk] x y + links [fk] y x)"
proof -
  let ?s = "sourceTable fk" and ?t = "targetTable fk"
  let ?c1 = "\<lambda>x y. if x = ?s \<and> y = ?t then Suc (c x y) else c x y"
  let ?c2 = "\<lambda>x y. if x = ?t \<and> y = ?s then Suc (?c1 x y) else ?c1 x y"
  from matrix_counts_row [OF mc s] obtain row where row: "m ?s = Some row"
    and cells: "\<forall>b. row b = (if b \<in> N then Some (Num (c ?s b)) else None)"
    by blast
  have rt: "row ?t = Some (Num (c ?s ?t))" using cells t by simp
  from bump_counts [OF mc s t np] obtain m1 where m1: "bump m ?s ?t = Inr m1"
    and c1: "matrix_counts N m1 ?c1"
    by blast
  from bump_counts [OF c1 t s np] obtain m2 where m2: "bump m1 ?t ?s = Inr m2"
    and c2: "matrix_counts N m2 ?c2"
    by blast
  have eq: "?c2 x y = c x y + links [fk] x y + links [fk] y x" for x y
    unfolding links_single by (cases "x = ?s"; cases "y = ?t"; cases "x = ?t"; cases "y = ?s") simp_all
  have "matrix_counts N m2 (\<lambda>x y. c x y + links [fk] x y + links [fk] y x)"
    using c2 unfolding eq .
  moreover have "\<exists>cd'. add_connection (m, cd) fk = Inr (m2, cd')"
    unfolding add_connection_def Let_def fst_conv snd_conv
    by (simp add: js_get_own [of m ?s row, OF row] js_get_own [of row ?t, OF rt] m1 m2)
  ultimately show ?thesis by blast
qed

lemma add_connection_outside:
  assumes mc: "matrix_counts N m c"
    and out: "sourceTable fk \<notin> N \<or> targetTable fk \<notin> N"
    and ps: "sourceTable fk \<in> N \<or> sourceTable fk \<notin> set object_prototype_keys"
    and pt: "targetTable fk \<in> N \<or> targetTable fk \<notin> set object_prototype_keys"
  shows "add_connection (m, cd) fk = Inr (m, cd)"
proof (cases "sourceTable fk \<in> N")
  case False
  then have "m (sourceTable fk) = None" by (rule matrix_counts_outside [OF mc])
  then have "js_get m (sourceTable fk) = Undefined"
    using False ps by (intro js_get_undefined) auto
  then show ?thesis by (simp add: add_connection_def)
next
  case True
  with out have t: "targetTable fk \<notin> N" by blast
  from matrix_counts_row [OF mc True] obtain row where row: "m (sourceTable fk) = Some row"
    and cells: "\<forall>b. row b = (if b \<in> N then Some (Num (c (sourceTable fk) b)) else None)"
    by blast
  have "row (targetTable fk) = None" using cells t by simp
  then have "js_get row (targetTable fk) = Undefined"
    using t pt by (intro js_get_undefined) auto
  then show ?thesis by (simp add: add_connection_def js_get_own [of m "sourceTable fk" row, OF row])
qed

lemma add_connection_counts:
  assumes mc: "matrix_counts N m c"
    and np: "''__proto__'' \<notin> N"
    and ps: "sourceTable fk \<in> N \<or> sourceTable fk \<notin> set object_prototype_keys"
    and pt: "targetTable fk \<in> N \<or> targetTable fk \<notin> set object_prototype_keys"
  shows "\<exists>m' cd'. add_connection (m, cd) fk = Inr (m', cd') \<and>
           matrix_counts N m' (\<lambda>x y. c x y + links [fk] x y + links [fk] y x)"
proof (cases "sourceTable fk \<in> N \<and> targetTable fk \<in> N")
  case True
  then show ?thesis using add_connection_inside [OF mc _ _ np] by blast
next
  case False
  then have out: "sourceTable fk \<notin> N \<or> targetTable fk \<notin> N" by blast
  have "c a b = c a b + links [fk] a b + links [fk] b a" if "a \<in> N" "b \<in> N" for a b
    using that out unfolding links_single by auto
  then have "matrix_counts N m (\<lambda>x y. c x y + links [fk] x y + links [fk] y x)"
    by (rule matrix_counts_cong [OF mc])
  with add_connection_outside [OF mc out ps pt, of cd] show ?thesis by blast
qed

lemma fold_connection_counts:
  assumes "matrix_counts N m c"
    and np: "''__proto__'' \<notin> N"
    and pl: "\<forall>fk \<in> set fks.
        (sourceTable fk \<in> N \<or> sourceTable fk \<notin> set object_prototype_keys) \<and>
        (targetTable fk \<in> N \<or> targetTable fk \<notin> set object_prototype_keys)"
  shows "\<exists>m' cd'. fold_result add_connection (m, cd) fks = Inr (m', cd') \<and>
           matrix_counts N m' (\<lambda>x y. c x y + links fks x y + links fks y x)"
  using assms(1) pl
proof (induction fks arbitrary: m cd c)
  case Nil
  then show ?case by (simp add: links_def)
next
  case (Cons fk fks)
  have ps: "sourceTable fk \<in> N \<or> sourceTable fk \<notin> set object_prototype_keys"
    and pt: "targetTable fk \<in> N \<or> targetTable fk \<notin> set object_prototype_keys"
    using Cons.prems(2) by simp_all
  have rest: "\<forall>fk \<in> set fks.
        (sourceTable fk \<in> N \<or> sourceTable fk \<notin> set object_prototype_keys) \<and>
        (targetTable fk \<in> N \<or> targetTable fk \<notin> set object_prototype_keys)"
    using Cons.prems(2) by simp
  from add_connection_counts [OF Cons.prems(1) np ps pt, of cd] obtain m1 cd1 where
    s1: "add_connection (m, cd) fk = Inr (m1, cd1)"
    and c1: "matrix_counts N m1 (\<lambda>x y. c x y + links [fk] x y + links [fk] y x)"
    by blast
  from Cons.IH [OF c1 rest, of cd1] obtain m2 cd2 where
    s2: "fold_result add_connection (m1, cd1) fks = Inr (m2, cd2)"
    and c2: "matrix_counts N m2
               (\<lambda>x y. c x y + links [fk] x y + links [fk] y x + links fks x y + links fks y x)"
    by blast
  have "matrix_counts N m2 (\<lambda>x y. c x y + links (fk # fks) x y + links (fk # fks) y x)"
    by (rule matrix_counts_cong [OF c2]) (simp add: links_Cons [of fk fks])
  moreover have "fold_result add_connection (m, cd) (fk # fks) = Inr (m2, cd2)"
    using s1 s2 by simp
  ultimately show ?case by blast
qed

lemma connection_matrix_counts:
  assumes "plain_links tables fks"
  shows "\<exists>m cd. connection_matrix tables fks = Inr (m, cd) \<and>
     matrix_counts (name ` set tables) m (\<lambda>x y. links fks x y + links fks y x)"
proof -
  have np: "''__proto__'' \<notin> name ` set tables"
    and pl: "\<forall>fk \<in> set fks.
        (sourceTable fk \<in> name ` set tables \<or> sourceTable fk \<notin> set object_prototype_keys) \<and>
        (targetTable fk \<in> name ` set tables \<or> targetTable fk \<notin> set object_prototype_keys)"
    using assms unfolding plain_links_def by blast+
  from init_matrix_counts [OF np] obtain m0 where
    m0: "init_matrix tables = Inr m0" "matrix_counts (name ` set tables) m0 (\<lambda>a b. 0)"
    by blast
  from fold_connection_counts [OF m0(2) np pl, of Map.empty] obtain m cd where
    "fold_result add_connection (m0, Map.empty) fks = Inr (m, cd)"
    "matrix_counts (name ` set tables) m (\<lambda>x y. 0 + links fks x y + links fks y x)"
    by blast
  then show ?thesis by (simp add: connection_matrix_def m0(1))
qed

lemma matrix_counts_cell:
  "matrix_counts N m c \<Longrightarrow> a \<in> N \<Longrightarrow> b \<in> N \<Longrightarrow> cell m a b = Some (Num (c a b))"
  unfolding matrix_counts_def cell_def by (metis (full_types) option.simps(5))

lemma pair_sum_cong:
  "(\<And>a b. a \<in> set xs \<Longrightarrow> b \<in> set xs \<Longrightarrow> f a b = g a b) \<Longrightarrow> pair_sum f xs = pair_sum g xs"
proof (induction xs)
  case Nil
  then show ?case by simp
next
  case (Cons x xs)
  have "map (f x) xs = map (g x) xs" using Cons.prems by simp
  moreover have "pair_sum f xs = pair_sum g xs" using Cons by simp
  ultimately show ?case by (simp only: pair_sum.simps)
qed

lemma pair_sum_add:
  "pair_sum (\<lambda>a b. f a b + g a b) xs = pair_sum f xs + pair_sum g xs"
  by (induction xs) (simp_all add: sum_list_addf)

lemma sum_list_indicator:
  "distinct xs \<Longrightarrow> sum_list (map (\<lambda>y. if P \<and> y = t then 1 else 0) xs)
     = (if P \<and> t \<in> set xs then (1::nat) else 0)"
  by (induction xs) auto

lemma pair_sum_single:
  assumes "distinct xs"
  shows "pair_sum (\<lambda>a b. links [fk] a b + links [fk] b a) xs
     = (if sourceTable fk \<in> set xs \<and> targetTable fk \<in> set xs \<and> sourceTable fk \<noteq> targetTable fk
        then 1 else 0)"
  using assms
proof (induction xs)
  case Nil
  then show ?case by simp
next
  case (Cons x xs)
  let ?s = "sourceTable fk" and ?t = "targetTable fk"
  have d: "distinct xs" and nx: "x \<notin> set xs" using Cons.prems by simp_all
  have "sum_list (map (\<lambda>b. links [fk] x b + links [fk] b x) xs)
          = sum_list (map (\<lambda>y. if ?s = x \<and> y = ?t then 1 else 0) xs)
            + sum_list (map (\<lambda>y. if ?t = x \<and> y = ?s then 1 else 0) xs)"
    unfolding sum_list_addf [symmetric]
    by (rule arg_cong [where f = sum_list]) (auto simp: links_single)
  also have "\<dots> = (if ?s = x \<and> ?t \<in> set xs then 1 else 0)
                    + (if ?t = x \<and> ?s \<in> set xs then 1 else 0)"
    by (simp only: sum_list_indicator [OF d])
  finally have row: "sum_list (map (\<lambda>b. links [fk] x b + links [fk] b x) xs)
          = (if ?s = x \<and> ?t \<in> set xs then 1 else 0) + (if ?t = x \<and> ?s \<in> set xs then 1 else 0)" .
  show ?case
    unfolding pair_sum.simps row Cons.IH [OF d]
    using nx by auto
qed

lemma pair_sum_links:
  assumes "distinct xs"
  shows "pair_sum (\<lambda>a b. links fks a b + links fks b a) xs
     = length (filter (\<lambda>fk. sourceTable fk \<in> set xs \<and> targetTable fk \<in> set xs \<and>
                            sourceTable fk \<noteq> targetTable fk) fks)"
proof (induction fks)
  case Nil
  have "pair_sum (\<lambda>a b. 0) xs = 0" by (induction xs) simp_all
  then show ?case by (simp add: links_def)
next
  case (Cons fk fks)
  have "pair_sum (\<lambda>a b. links (fk # fks) a b + links (fk # fks) b a) xs
          = pair_sum (\<lambda>a b. (links [fk] a b + links [fk] b a) + (links fks a b + links fks b a)) xs"
    by (rule pair_sum_cong) (simp add: links_Cons [of fk fks])
  also have "\<dots> = pair_sum (\<lambda>a b. links [fk] a b + links [fk] b a) xs
                    + pair_sum (\<lambda>a b. links fks a b + links fks b a) xs"
    by (rule pair_sum_add)
  finally show ?case
    unfolding pair_sum_single [OF assms] Cons.IH by simp
qed


text \<open>
  The example of the specification: tables \<open>X, Y\<close> and two foreign keys from \<open>X\<close> to \<open>Y\<close>
  give weight 2 in both cells.
\<close>

lemma connection_matrix_example:
  "matrix_cell [mk_table ''X'', mk_table ''Y'']
     [mk_fk ''X'' ''a'' ''Y'' ''id'', mk_fk ''X'' ''b'' ''Y'' ''id2''] ''X'' ''Y'' = Some (Num 2) \<and>
   matrix_cell [mk_table ''X'', mk_table ''Y'']
     [mk_fk ''X'' ''a'' ''Y'' ''id'', mk_fk ''X'' ''b'' ''Y'' ''id2''] ''Y'' ''X'' = Some (Num 2)"
  by code_simp

text \<open>
  When no table is named \<^verbatim>\<open>__proto__\<close> and the endpoints of the foreign keys are listed
  tables or no inherited keys, the matrix is built without error and is symmetric on the
  listed tables; the diagonal cell of a table holds twice the number of foreign keys from
  the table to itself; and, for distinct table names, the sum of the cells over the pairs
  of listed tables is the number of foreign keys between two different listed tables.
\<close>

lemma connection_matrix_properties:
  assumes "plain_links tables fks"
  shows "\<exists>m cd. connection_matrix tables fks = Inr (m, cd) \<and>
     (\<forall>a \<in> name ` set tables. \<forall>b \<in> name ` set tables.
        cell m a b = Some (Num (links fks a b + links fks b a)) \<and> cell m a b = cell m b a) \<and>
     (\<forall>x \<in> name ` set tables. cell m x x = Some (Num (2 * links fks x x))) \<and>
     (distinct (map name tables) \<longrightarrow>
        pair_sum (cell_value m) (map name tables)
          = length (filter (\<lambda>fk. sourceTable fk \<in> name ` set tables \<and>
                                 targetTable fk \<in> name ` set tables \<and>
                                 sourceTable fk \<noteq> targetTable fk) fks))"
proof -
  let ?N = "name ` set tables"
  let ?c = "\<lambda>x y. links fks x y + links fks y x"
  from connection_matrix_counts [OF assms] obtain m cd where
    r: "connection_matrix tables fks = Inr (m, cd)" and mc: "matrix_counts ?N m ?c"
    by blast
  have cells: "cell m a b = Some (Num (?c a b))" if "a \<in> ?N" "b \<in> ?N" for a b
    using matrix_counts_cell [OF mc that] .
  have sym: "\<forall>a \<in> ?N. \<forall>b \<in> ?N.
        cell m a b = Some (Num (links fks a b + links fks b a)) \<and> cell m a b = cell m b a"
    using cells by (simp add: add.commute)
  have diag: "\<forall>x \<in> ?N. cell m x x = Some (Num (2 * links fks x x))"
    using cells by simp
  have total: "pair_sum (cell_value m) (map name tables)
          = length (filter (\<lambda>fk. sourceTable fk \<in> ?N \<and> targetTable fk \<in> ?N \<and>
                                 sourceTable fk \<noteq> targetTable fk) fks)"
    if d: "distinct (map name tables)"
  proof -
    have "pair_sum (cell_value m) (map name tables) = pair_sum ?c (map name tables)"
      by (rule pair_sum_cong) (simp add: cell_value_def cells)
    also have "\<dots> = length (filter (\<lambda>fk. sourceTable fk \<in> set (map name tables) \<and>
                          targetTable fk \<in> set (map name tables) \<and>
                          sourceTable fk \<noteq> targetTable fk) fks)"
      by (rule pair_sum_links [OF d])
    finally show ?thesis by simp
  qed
  show ?thesis
  proof (intro exI conjI impI)
    show "connection_matrix tables fks = Inr (m, cd)" by (fact r)
    show "\<forall>a \<in> ?N. \<forall>b \<in> ?N.
        cell m a b = Some (Num (links fks a b + links fks b a)) \<and> cell m a b = cell m b a"
      by (fact sym)
    show "\<forall>x \<in> ?N. cell m x x = Some (Num (2 * links fks x x))" by (fact diag)
    show "pair_sum (cell_value m) (map name tables)
          = length (filter (\<lambda>fk. sourceTable fk \<in> ?N \<and> targetTable fk \<in> ?N \<and>
                                 sourceTable fk \<noteq> targetTable fk) fks)"
      if "distinct (map name tables)" using total [OF that] .
  qed
qed

text \<open>
  Claim C3, evaluated where it fails. A foreign key from a table to itself, such as
  \<open>employees.manager_id \<rightarrow> employees.id\<close>, passes the guard, and both increments hit the
  diagonal cell of the table: the cell holds 2, not 0. Without the foreign key it holds 0.
\<close>

theorem connection_matrix_self_reference:
  "matrix_cell [mk_table ''employees'']
     [mk_fk ''employees'' ''manager_id'' ''employees'' ''id''] ''employees'' ''employees''
     = Some (Num 2) \<and>
   matrix_cell [mk_table ''employees''] [] ''employees'' ''employees'' = Some (Num 0)"
  by code_simp

section \<open>Hierarchy builder: roots and their children\<close>

lemma tn_id_child_node [simp]: "tn_id (child_node tables pm roots t) = name t"
  by (simp add: child_node_def split: js_lookup.split)

lemma place_tables_fold:
  assumes "distinct (map name ts)"
    and "\<forall>t \<in> set ts. (\<exists>n \<in> set nodes. tn_id n = name t) \<longleftrightarrow> R (name t)"
  shows "foldl (place_table tables pm roots) nodes ts
           = nodes @ map (child_node tables pm roots) (filter (\<lambda>t. \<not> R (name t)) ts)"
  using assms
proof (induction ts arbitrary: nodes)
  case Nil
  then show ?case by simp
next
  case (Cons t ts)
  have d: "distinct (map name ts)" and nt: "name t \<notin> name ` set ts"
    using Cons.prems(1) by simp_all
  show ?case
  proof (cases "R (name t)")
    case True
    then have "\<exists>n \<in> set nodes. tn_id n = name t" using Cons.prems(2) by simp
    then have step: "place_table tables pm roots nodes t = nodes"
      by (simp add: place_table_def)
    have "\<forall>t' \<in> set ts. (\<exists>n \<in> set nodes. tn_id n = name t') \<longleftrightarrow> R (name t')"
      using Cons.prems(2) by simp
    from Cons.IH [OF d this] show ?thesis using step True by simp
  next
    case False
    then have "\<not> (\<exists>n \<in> set nodes. tn_id n = name t)" using Cons.prems(2) by simp
    then have step: "place_table tables pm roots nodes t = nodes @ [child_node tables pm roots t]"
      by (simp add: place_table_def)
    have "\<forall>t' \<in> set ts. (\<exists>n \<in> set (nodes @ [child_node tables pm roots t]). tn_id n = name t')
            \<longleftrightarrow> R (name t')"
    proof
      fix t' assume t': "t' \<in> set ts"
      then have "name t' \<in> name ` set ts" by (rule imageI)
      then have "name t' \<noteq> name t" using nt by metis
      then have "(\<exists>n \<in> set (nodes @ [child_node tables pm roots t]). tn_id n = name t')
                   \<longleftrightarrow> (\<exists>n \<in> set nodes. tn_id n = name t')"
        by auto
      then show "(\<exists>n \<in> set (nodes @ [child_node tables pm roots t]). tn_id n = name t')
                   \<longleftrightarrow> R (name t')"
        using Cons.prems(2) t' by simp
    qed
    from Cons.IH [OF d this] show ?thesis using step False by simp
  qed
qed

lemma root_candidates_mem:
  "t \<in> set (root_candidates tables fks) \<longleftrightarrow>
     t \<in> set tables \<and> \<not> js_truthy (js_get (parent_map fks) (name t))"
  by (simp add: root_candidates_def)

lemma root_nodes_ids:
  "tn_id ` set (root_nodes roots)
     = (if length roots > 1 then insert virtualRoot (name ` set roots) else name ` set roots)"
proof (cases roots)
  case Nil
  then show ?thesis by (simp add: root_nodes_def)
next
  case (Cons r rs)
  show ?thesis
  proof (cases rs)
    case Nil
    with Cons show ?thesis by (simp add: root_nodes_def)
  next
    case (Cons r' rs')
    with \<open>roots = r # rs\<close> show ?thesis
      by (simp add: root_nodes_def virtual_node_def image_image)
  qed
qed

lemma root_nodes_cover:
  assumes "virtualRoot \<notin> name ` set tables" "t \<in> set tables"
  shows "(\<exists>n \<in> set (root_nodes (root_candidates tables fks)). tn_id n = name t)
           \<longleftrightarrow> \<not> js_truthy (js_get (parent_map fks) (name t))"
proof -
  let ?roots = "root_candidates tables fks"
  have "(\<exists>n \<in> set (root_nodes ?roots). tn_id n = name t)
          \<longleftrightarrow> name t \<in> tn_id ` set (root_nodes ?roots)"
    by force
  also have "\<dots> \<longleftrightarrow> name t \<in> name ` set ?roots"
  proof -
    have "name t \<noteq> virtualRoot" using assms by (metis imageI)
    then show ?thesis unfolding root_nodes_ids by simp
  qed
  also have "\<dots> \<longleftrightarrow> \<not> js_truthy (js_get (parent_map fks) (name t))"
  proof
    assume "name t \<in> name ` set ?roots"
    then obtain r where "r \<in> set ?roots" "name r = name t" by force
    then show "\<not> js_truthy (js_get (parent_map fks) (name t))"
      using root_candidates_mem [of r tables fks] by simp
  next
    assume "\<not> js_truthy (js_get (parent_map fks) (name t))"
    then have "t \<in> set ?roots" using assms(2) by (simp add: root_candidates_mem)
    then show "name t \<in> name ` set ?roots" by (rule imageI)
  qed
  finally show ?thesis .
qed

lemma treeData_nodes:
  assumes "distinct (map name tables)" "virtualRoot \<notin> name ` set tables"
    and "root_candidates tables fks \<noteq> [] \<or> tables = []"
  shows "treeData tables fks
           = Some (root_nodes (root_candidates tables fks)
                   @ map (child_node tables (parent_map fks) (root_candidates tables fks))
                       (filter (\<lambda>t. js_truthy (js_get (parent_map fks) (name t))) tables))"
proof -
  let ?roots = "root_candidates tables fks"
  let ?pm = "parent_map fks"
  have "\<forall>t \<in> set tables. (\<exists>n \<in> set (root_nodes ?roots). tn_id n = name t)
           \<longleftrightarrow> \<not> js_truthy (js_get ?pm (name t))"
    using root_nodes_cover [OF assms(2)] by blast
  from place_tables_fold [OF assms(1), of "root_nodes ?roots"
      "\<lambda>n. \<not> js_truthy (js_get ?pm n)", OF this]
  have "foldl (place_table tables ?pm ?roots) (root_nodes ?roots) tables
          = root_nodes ?roots @ map (child_node tables ?pm ?roots)
              (filter (\<lambda>t. js_truthy (js_get ?pm (name t))) tables)"
    by simp
  then show ?thesis
    using assms(3) by (auto simp: treeData_def Let_def)
qed

text \<open>
  The parent map against the primary parent of the specification: where the targets of
  the foreign keys are non-empty, a key that is no inherited member name is mapped to its
  primary parent, and an inherited member name is never stored.
\<close>

lemma add_parent_plain:
  assumes "[] \<notin> ran pm"
  shows "add_parent pm fk
           = (if pm (sourceTable fk) = None \<and> sourceTable fk \<notin> set object_prototype_keys
              then pm(sourceTable fk \<mapsto> targetTable fk) else pm)"
proof (cases "pm (sourceTable fk)")
  case None
  show ?thesis
  proof (cases "sourceTable fk \<in> set object_prototype_keys")
    case True
    then have "js_get pm (sourceTable fk) = Inherited"
      using None by (simp add: js_get_def)
    then show ?thesis using True by (simp add: add_parent_def js_truthy_def)
  next
    case False
    then have "js_get pm (sourceTable fk) = Undefined"
      using None by (simp add: js_get_def)
    moreover have "sourceTable fk \<noteq> ''__proto__''"
      using False by (auto simp: object_prototype_keys_def)
    ultimately show ?thesis
      using False None by (simp add: add_parent_def js_truthy_def js_put_def)
  qed
next
  case (Some s)
  then have "s \<in> ran pm" by (auto simp: ran_def)
  then have "s \<noteq> []" using assms by metis
  moreover have "js_get pm (sourceTable fk) = Own s"
    using Some by (simp add: js_get_def)
  ultimately show ?thesis using Some by (simp add: add_parent_def js_truthy_def)
qed

lemma primary_parent_Cons:
  "primary_parent (fk # fks) n
     = (if sourceTable fk = n then Some (targetTable fk) else primary_parent fks n)"
  by (simp add: primary_parent_def)

lemma parent_map_fold:
  assumes "[] \<notin> ran pm" "\<forall>fk \<in> set fks. targetTable fk \<noteq> []"
  shows "foldl add_parent pm fks n
           = (case pm n of
                Some s \<Rightarrow> Some s
              | None \<Rightarrow> if n \<in> set object_prototype_keys then None else primary_parent fks n)"
  using assms
proof (induction fks arbitrary: pm)
  case Nil
  show ?case by (simp add: primary_parent_def split: option.split)
next
  case (Cons fk fks)
  let ?pm' = "add_parent pm fk"
  have ap: "?pm' = (if pm (sourceTable fk) = None \<and> sourceTable fk \<notin> set object_prototype_keys
                    then pm(sourceTable fk \<mapsto> targetTable fk) else pm)"
    by (rule add_parent_plain [OF Cons.prems(1)])
  have tg: "targetTable fk \<noteq> []" using Cons.prems(2) by simp
  have inv: "[] \<notin> ran ?pm'"
  proof (cases "pm (sourceTable fk) = None \<and> sourceTable fk \<notin> set object_prototype_keys")
    case True
    then have "ran ?pm' = insert (targetTable fk) (ran pm)"
      unfolding ap by simp
    then show ?thesis using Cons.prems(1) tg by auto
  next
    case False
    then have "?pm' = pm" unfolding ap by (simp only: if_False)
    then show ?thesis using Cons.prems(1) by simp
  qed
  have rest: "\<forall>fk \<in> set fks. targetTable fk \<noteq> []" using Cons.prems(2) by simp
  have ih: "foldl add_parent ?pm' fks n
           = (case ?pm' n of
                Some s \<Rightarrow> Some s
              | None \<Rightarrow> if n \<in> set object_prototype_keys then None else primary_parent fks n)"
    by (rule Cons.IH [OF inv rest])
  have "foldl add_parent pm (fk # fks) n = foldl add_parent ?pm' fks n" by simp
  also have "\<dots> = (case pm n of
                Some s \<Rightarrow> Some s
              | None \<Rightarrow> if n \<in> set object_prototype_keys then None
                        else primary_parent (fk # fks) n)"
    by (subst ih) (auto simp: ap primary_parent_Cons split: option.split)
  finally show ?case .
qed

lemma parent_map_lookup:
  assumes "\<forall>fk \<in> set fks. targetTable fk \<noteq> []" "n \<notin> set object_prototype_keys"
  shows "parent_map fks n = primary_parent fks n"
  using parent_map_fold [of Map.empty fks n] assms by (simp add: parent_map_def)

lemma primary_parent_nonempty:
  "\<forall>fk \<in> set fks. targetTable fk \<noteq> [] \<Longrightarrow> primary_parent fks n = Some p \<Longrightarrow> p \<noteq> []"
proof (induction fks)
  case Nil
  then show ?case by (simp add: primary_parent_def)
next
  case (Cons fk fks)
  then show ?case by (auto simp: primary_parent_Cons split: if_splits)
qed

lemma primary_parent_None: "primary_parent fks (name t) = None \<longleftrightarrow> root_candidate fks t"
  unfolding primary_parent_def root_candidate_def
  by (auto simp: find_None_iff filter_empty_conv)

lemma js_get_parent_map:
  assumes g: "\<forall>fk \<in> set fks. targetTable fk \<noteq> []" and k: "n \<notin> set object_prototype_keys"
  shows "js_get (parent_map fks) n
           = (case primary_parent fks n of None \<Rightarrow> Undefined | Some p \<Rightarrow> Own p)"
  using parent_map_lookup [OF g k] k by (simp add: js_get_def split: option.split)

lemma root_test:
  assumes g: "\<forall>fk \<in> set fks. targetTable fk \<noteq> []"
    and k: "name t \<notin> set object_prototype_keys"
  shows "js_truthy (js_get (parent_map fks) (name t)) \<longleftrightarrow> \<not> root_candidate fks t"
proof (cases "primary_parent fks (name t)")
  case None
  then have "root_candidate fks t" by (simp add: primary_parent_None)
  then show ?thesis
    unfolding js_get_parent_map [OF g k] None by (simp add: js_truthy_def)
next
  case (Some p)
  then have "\<not> root_candidate fks t"
    using primary_parent_None [of fks t] by simp
  moreover have "p \<noteq> []" using primary_parent_nonempty [OF g Some] .
  ultimately show ?thesis
    unfolding js_get_parent_map [OF g k] Some by (simp add: js_truthy_def)
qed

lemma root_candidates_spec:
  assumes g: "\<forall>fk \<in> set fks. targetTable fk \<noteq> []"
    and k: "name ` set tables \<inter> set object_prototype_keys = {}"
  shows "root_candidates tables fks = filter (root_candidate fks) tables"
  unfolding root_candidates_def
proof (rule filter_cong [OF refl])
  fix t assume "t \<in> set tables"
  then have "name t \<notin> set object_prototype_keys" using k by blast
  then show "(\<not> js_truthy (js_get (parent_map fks) (name t))) = root_candidate fks t"
    using root_test [OF g] by simp
qed

lemma child_node_parent:
  "parentId (child_node tables pm roots t)
     = (case js_get pm (name t) of
          Own p \<Rightarrow> if p \<noteq> [] \<and> p \<in> name ` set tables then Some p else fallback_parent roots
        | _ \<Rightarrow> fallback_parent roots)"
  by (auto simp: child_node_def split: js_lookup.split)

lemma child_node_spec:
  assumes g: "\<forall>fk \<in> set fks. targetTable fk \<noteq> []"
    and k: "name t \<notin> set object_prototype_keys"
    and np: "\<not> root_candidate fks t"
  shows "parentId (child_node tables (parent_map fks) roots t)
           = (if orphan tables fks t then fallback_parent roots else primary_parent fks (name t))"
proof -
  obtain p where p: "primary_parent fks (name t) = Some p"
    using np primary_parent_None [of fks t] by (cases "primary_parent fks (name t)") simp_all
  have ne: "p \<noteq> []" using primary_parent_nonempty [OF g p] .
  show ?thesis
    unfolding child_node_parent js_get_parent_map [OF g k] p
    using ne by (simp add: orphan_def p)
qed

lemma not_orphan_parent:
  assumes "\<not> root_candidate fks t" "\<not> orphan tables fks t"
  shows "\<exists>p \<in> name ` set tables. primary_parent fks (name t) = Some p"
proof -
  obtain p where p: "primary_parent fks (name t) = Some p"
    using assms(1) primary_parent_None [of fks t] by (cases "primary_parent fks (name t)") simp_all
  then have "p \<in> name ` set tables" using assms(2) by (simp add: orphan_def)
  with p show ?thesis by blast
qed

lemma child_node_virtual:
  assumes g: "\<forall>fk \<in> set fks. targetTable fk \<noteq> []"
    and k: "name t \<notin> set object_prototype_keys"
    and np: "\<not> root_candidate fks t"
    and v: "virtualRoot \<notin> name ` set tables"
    and r: "fallback_parent roots = Some virtualRoot"
  shows "parentId (child_node tables (parent_map fks) roots t) = Some virtualRoot
           \<longleftrightarrow> orphan tables fks t"
proof (cases "orphan tables fks t")
  case True
  then show ?thesis unfolding child_node_spec [OF g k np] using r by simp
next
  case False
  from not_orphan_parent [OF np False] obtain p where
    p: "p \<in> name ` set tables" "primary_parent fks (name t) = Some p" by blast
  then have "p \<noteq> virtualRoot" using v by metis
  then show ?thesis unfolding child_node_spec [OF g k np] using False p(2) by simp
qed

lemma child_node_not_top:
  assumes g: "\<forall>fk \<in> set fks. targetTable fk \<noteq> []"
    and k: "name t \<notin> set object_prototype_keys"
    and np: "\<not> root_candidate fks t"
    and f: "fallback_parent roots \<noteq> None"
  shows "parentId (child_node tables (parent_map fks) roots t) \<noteq> None"
proof (cases "orphan tables fks t")
  case True
  then show ?thesis unfolding child_node_spec [OF g k np] using f by simp
next
  case False
  from not_orphan_parent [OF np False] obtain p where
    "primary_parent fks (name t) = Some p" by blast
  then show ?thesis unfolding child_node_spec [OF g k np] using False by simp
qed

lemma child_node_real:
  assumes g: "\<forall>fk \<in> set fks. targetTable fk \<noteq> []"
    and k: "name t \<notin> set object_prototype_keys"
    and np: "\<not> root_candidate fks t"
    and v: "virtualRoot \<notin> name ` set tables"
    and f: "fallback_parent roots = Some q" "q \<in> name ` set tables"
  shows "parentId (child_node tables (parent_map fks) roots t) \<noteq> Some virtualRoot"
proof (cases "orphan tables fks t")
  case True
  have "q \<noteq> virtualRoot" using f(2) v by metis
  then show ?thesis unfolding child_node_spec [OF g k np] using True f(1) by simp
next
  case False
  from not_orphan_parent [OF np False] obtain p where
    p: "p \<in> name ` set tables" "primary_parent fks (name t) = Some p" by blast
  then have "p \<noteq> virtualRoot" using v by metis
  then show ?thesis unfolding child_node_spec [OF g k np] using False p(2) by simp
qed

lemma filter_children:
  assumes "\<And>t. t \<in> set ts \<Longrightarrow> P t \<Longrightarrow> (R (f t) \<longleftrightarrow> Q t)"
    and "\<And>t. t \<in> set ts \<Longrightarrow> Q t \<Longrightarrow> P t"
  shows "filter R (map f (filter P ts)) = map f (filter Q ts)"
  using assms
proof (induction ts)
  case Nil
  show ?case by simp
next
  case (Cons t ts)
  have ih: "filter R (map f (filter P ts)) = map f (filter Q ts)"
    by (rule Cons.IH) (use Cons.prems in auto)
  show ?case
  proof (cases "P t")
    case True
    then have "R (f t) \<longleftrightarrow> Q t" using Cons.prems(1) [of t] by simp
    then show ?thesis using True ih by simp
  next
    case False
    then have "\<not> Q t" using Cons.prems(2) [of t] by auto
    then show ?thesis using False ih by simp
  qed
qed

lemma orphan_not_root: "orphan tables fks t \<Longrightarrow> \<not> root_candidate fks t"
  using primary_parent_None [of fks t] by (auto simp: orphan_def)

lemma filter_none:
  "(\<And>x. x \<in> set xs \<Longrightarrow> \<not> P (f x)) \<Longrightarrow> filter P (map f xs) = []"
  by (induction xs) simp_all

lemma names_partition:
  assumes "distinct (map name tables)"
  shows "distinct (map name (filter P tables) @ map name (filter (\<lambda>t. \<not> P t) tables))"
    and "set (map name (filter P tables) @ map name (filter (\<lambda>t. \<not> P t) tables))
           = name ` set tables"
proof -
  have d1: "distinct (map name (filter P tables))"
    and d2: "distinct (map name (filter (\<lambda>t. \<not> P t) tables))"
    using assms by (simp_all add: distinct_map_filter)
  have inj: "inj_on name (set tables)" using assms by (simp add: distinct_map)
  have "name a \<noteq> name b" if "a \<in> set tables" "P a" "b \<in> set tables" "\<not> P b" for a b
    using inj that by (metis inj_onD)
  then have "set (map name (filter P tables)) \<inter> set (map name (filter (\<lambda>t. \<not> P t) tables)) = {}"
    by auto
  with d1 d2 show "distinct (map name (filter P tables) @ map name (filter (\<lambda>t. \<not> P t) tables))"
    by simp
  show "set (map name (filter P tables) @ map name (filter (\<lambda>t. \<not> P t) tables))
           = name ` set tables"
    by auto
qed

text \<open>The two examples of the specification.\<close>

lemma treeData_example_chain:
  "treeData [mk_table ''A'', mk_table ''B'', mk_table ''C'']
     [mk_fk ''B'' ''a_id'' ''A'' ''id'', mk_fk ''C'' ''b_id'' ''B'' ''id'']
   = Some [\<lparr>tn_id = ''A'', parentId = None, tn_table = mk_table ''A''\<rparr>,
           \<lparr>tn_id = ''B'', parentId = Some ''A'', tn_table = mk_table ''B''\<rparr>,
           \<lparr>tn_id = ''C'', parentId = Some ''B'', tn_table = mk_table ''C''\<rparr>]"
  by code_simp

lemma treeData_example_forest:
  "treeData [mk_table ''A'', mk_table ''B''] []
   = Some [virtual_node,
           \<lparr>tn_id = ''A'', parentId = Some virtualRoot, tn_table = mk_table ''A''\<rparr>,
           \<lparr>tn_id = ''B'', parentId = Some virtualRoot, tn_table = mk_table ''B''\<rparr>]"
  by code_simp

text \<open>
  Why the names must not be names of inherited members: a table named \<open>constructor\<close>
  passes the test \<^verbatim>\<open>parentMap[t.name]\<close> without a foreign key, so it is no root of the
  code, and alone it leaves no root at all.
\<close>

lemma treeData_inherited_name:
  "treeData [mk_table ''constructor''] [] = None \<and>
   root_candidate [] (mk_table ''constructor'')"
  by code_simp

text \<open>
  Claim C7 as stated fails: \<open>C\<close> has a foreign key to a table that is not listed, so it is
  no root candidate, and it is a child of the virtual root all the same.
\<close>

theorem treeData_orphan_counterexample:
  "map name (filter (root_candidate [mk_fk ''C'' ''x_id'' ''X'' ''id''])
               [mk_table ''A'', mk_table ''B'', mk_table ''C'']) = [''A'', ''B''] \<and>
   virtual_root_children [mk_table ''A'', mk_table ''B'', mk_table ''C'']
     [mk_fk ''C'' ''x_id'' ''X'' ''id''] = Some [''A'', ''B'', ''C'']"
  by code_simp

text \<open>
  Claim C7, amended. For distinct, non-empty table names other than \<^verbatim>\<open>__root__\<close> and the
  names of the inherited members of a plain object, and foreign keys with non-empty
  targets: the roots of the code are the root candidates of the specification, the tables
  without outgoing foreign key. With more than one root candidate the only node without
  parent is the virtual root, and its children are the root candidates followed by the
  tables whose primary parent, the target of their first foreign key, is not a listed
  table; with exactly one root candidate that table is the only node without parent and
  no node hangs under a virtual root. In both cases every table has exactly one node.
  The two examples of the specification hold as stated.
\<close>

theorem treeData_roots:
  assumes d: "distinct (map name tables)"
    and v: "virtualRoot \<notin> name ` set tables"
    and e: "[] \<notin> name ` set tables"
    and k: "name ` set tables \<inter> set object_prototype_keys = {}"
    and g: "\<forall>fk \<in> set fks. targetTable fk \<noteq> []"
  shows "root_candidates tables fks = filter (root_candidate fks) tables \<and>
         (length (filter (root_candidate fks) tables) > 1 \<longrightarrow>
            top_nodes tables fks = Some [virtualRoot] \<and>
            virtual_root_children tables fks
              = Some (map name (filter (root_candidate fks) tables)
                      @ map name (filter (orphan tables fks) tables)) \<and>
            (\<exists>ids. node_ids tables fks = Some (virtualRoot # ids) \<and> distinct ids \<and>
                   set ids = name ` set tables)) \<and>
         (length (filter (root_candidate fks) tables) = 1 \<longrightarrow>
            top_nodes tables fks = Some (map name (filter (root_candidate fks) tables)) \<and>
            virtual_root_children tables fks = Some [] \<and>
            (\<exists>ids. node_ids tables fks = Some ids \<and> distinct ids \<and>
                   set ids = name ` set tables)) \<and>
         treeData [mk_table ''A'', mk_table ''B'', mk_table ''C'']
             [mk_fk ''B'' ''a_id'' ''A'' ''id'', mk_fk ''C'' ''b_id'' ''B'' ''id'']
           = Some [\<lparr>tn_id = ''A'', parentId = None, tn_table = mk_table ''A''\<rparr>,
                   \<lparr>tn_id = ''B'', parentId = Some ''A'', tn_table = mk_table ''B''\<rparr>,
                   \<lparr>tn_id = ''C'', parentId = Some ''B'', tn_table = mk_table ''C''\<rparr>] \<and>
         treeData [mk_table ''A'', mk_table ''B''] []
           = Some [virtual_node,
                   \<lparr>tn_id = ''A'', parentId = Some virtualRoot, tn_table = mk_table ''A''\<rparr>,
                   \<lparr>tn_id = ''B'', parentId = Some virtualRoot, tn_table = mk_table ''B''\<rparr>]"
proof (intro conjI impI)
  let ?roots = "filter (root_candidate fks) tables"
  let ?pm = "parent_map fks"
  let ?rest = "filter (\<lambda>t. \<not> root_candidate fks t) tables"
  let ?child = "child_node tables ?pm ?roots"
  have kt: "name t \<notin> set object_prototype_keys" if "t \<in> set tables" for t
    using k that by blast
  show rc: "root_candidates tables fks = ?roots"
    by (rule root_candidates_spec [OF g k])
  have rest: "filter (\<lambda>t. js_truthy (js_get ?pm (name t))) tables = ?rest"
    by (rule filter_cong [OF refl]) (simp add: root_test [OF g kt])
  have part: "distinct (map name ?roots @ map name ?rest)"
    "set (map name ?roots @ map name ?rest) = name ` set tables"
    using names_partition [OF d, of "root_candidate fks"] by simp_all
  have nodes: "treeData tables fks = Some (root_nodes ?roots @ map ?child ?rest)"
    if "?roots \<noteq> [] \<or> tables = []"
    using treeData_nodes [OF d v, of fks] that unfolding rc rest by simp
  have in_rest: "t \<in> set tables \<and> \<not> root_candidate fks t" if "t \<in> set ?rest" for t
    using that by simp
  {
    assume many: "length ?roots > 1"
    then have ne: "?roots \<noteq> [] \<or> tables = []" by auto
    have td: "treeData tables fks = Some (root_nodes ?roots @ map ?child ?rest)"
      by (rule nodes [OF ne])
    have rn: "root_nodes ?roots
        = virtual_node # map (\<lambda>t. \<lparr>tn_id = name t, parentId = Some virtualRoot, tn_table = t\<rparr>) ?roots"
      using many by (simp add: root_nodes_def)
    have fbv: "fallback_parent ?roots = Some virtualRoot"
      using many by (simp add: fallback_parent_def)
    then have fb: "fallback_parent ?roots \<noteq> None" by simp
    have top_rest: "filter (\<lambda>n. parentId n = None) (map ?child ?rest) = []"
    proof (rule filter_none)
      fix t assume "t \<in> set ?rest"
      then have t: "t \<in> set tables" "\<not> root_candidate fks t" by simp_all
      show "parentId (?child t) \<noteq> None"
        by (rule child_node_not_top [OF g kt [OF t(1)] t(2) fb])
    qed
    have top_roots: "filter (\<lambda>n. parentId n = None)
        (map (\<lambda>t. \<lparr>tn_id = name t, parentId = Some virtualRoot, tn_table = t\<rparr>) ?roots) = []"
      by (rule filter_none) simp
    show "top_nodes tables fks = Some [virtualRoot]"
      unfolding top_nodes_def td rn
      by (simp add: top_rest top_roots virtual_node_def)
    have kids_roots: "filter (\<lambda>n. parentId n = Some virtualRoot)
        (map (\<lambda>t. \<lparr>tn_id = name t, parentId = Some virtualRoot, tn_table = t\<rparr>) ?roots)
        = map (\<lambda>t. \<lparr>tn_id = name t, parentId = Some virtualRoot, tn_table = t\<rparr>) ?roots"
      by (simp add: filter_map comp_def)
    have kids_rest: "filter (\<lambda>n. parentId n = Some virtualRoot) (map ?child ?rest)
        = map ?child (filter (orphan tables fks) tables)"
    proof (rule filter_children)
      fix t assume "t \<in> set tables" "\<not> root_candidate fks t"
      then show "parentId (?child t) = Some virtualRoot \<longleftrightarrow> orphan tables fks t"
        using child_node_virtual [OF g kt _ v fbv] by blast
    next
      fix t assume "orphan tables fks t"
      then show "\<not> root_candidate fks t" by (rule orphan_not_root)
    qed
    show "virtual_root_children tables fks
              = Some (map name ?roots @ map name (filter (orphan tables fks) tables))"
      unfolding virtual_root_children_def td rn
      by (simp add: kids_roots kids_rest virtual_node_def comp_def)
    have "node_ids tables fks = Some (virtualRoot # (map name ?roots @ map name ?rest))"
      unfolding node_ids_def td rn by (simp add: virtual_node_def comp_def)
    then show "\<exists>ids. node_ids tables fks = Some (virtualRoot # ids) \<and> distinct ids \<and>
                   set ids = name ` set tables"
      using part by blast
  }
  {
    assume one: "length ?roots = 1"
    then obtain r where r: "?roots = [r]" by (cases ?roots) auto
    then have ne: "?roots \<noteq> [] \<or> tables = []" by simp
    have "r \<in> set ?roots" unfolding r by simp
    then have rt: "r \<in> set tables" by simp
    then have rne: "name r \<noteq> []" using e by (metis imageI)
    have td: "treeData tables fks = Some (root_nodes ?roots @ map ?child ?rest)"
      by (rule nodes [OF ne])
    have rn: "root_nodes ?roots = [\<lparr>tn_id = name r, parentId = None, tn_table = r\<rparr>]"
      unfolding r by (simp add: root_nodes_def)
    have fbv: "fallback_parent ?roots = Some (name r)"
      unfolding r using rne by (simp add: fallback_parent_def)
    then have fb: "fallback_parent ?roots \<noteq> None" by simp
    have top_rest: "filter (\<lambda>n. parentId n = None) (map ?child ?rest) = []"
    proof (rule filter_none)
      fix t assume "t \<in> set ?rest"
      then have t: "t \<in> set tables" "\<not> root_candidate fks t" by simp_all
      show "parentId (?child t) \<noteq> None"
        by (rule child_node_not_top [OF g kt [OF t(1)] t(2) fb])
    qed
    have mr: "map name ?roots = [name r]" by (simp add: r)
    show "top_nodes tables fks = Some (map name ?roots)"
      unfolding top_nodes_def td rn mr
      by (simp add: top_rest)
    have rn_in: "name r \<in> name ` set tables" using rt by (rule imageI)
    have kids_rest: "filter (\<lambda>n. parentId n = Some virtualRoot) (map ?child ?rest) = []"
    proof (rule filter_none)
      fix t assume "t \<in> set ?rest"
      then have t: "t \<in> set tables" "\<not> root_candidate fks t" by simp_all
      show "parentId (?child t) \<noteq> Some virtualRoot"
        by (rule child_node_real [OF g kt [OF t(1)] t(2) v fbv rn_in])
    qed
    show "virtual_root_children tables fks = Some []"
      unfolding virtual_root_children_def td rn
      by (simp add: kids_rest)
    have "node_ids tables fks = Some (map name ?roots @ map name ?rest)"
      unfolding node_ids_def td rn mr by (simp add: comp_def)
    then show "\<exists>ids. node_ids tables fks = Some ids \<and> distinct ids \<and>
                   set ids = name ` set tables"
      using part by blast
  }
  show "treeData [mk_table ''A'', mk_table ''B'', mk_table ''C'']
             [mk_fk ''B'' ''a_id'' ''A'' ''id'', mk_fk ''C'' ''b_id'' ''B'' ''id'']
           = Some [\<lparr>tn_id = ''A'', parentId = None, tn_table = mk_table ''A''\<rparr>,
                   \<lparr>tn_id = ''B'', parentId = Some ''A'', tn_table = mk_table ''B''\<rparr>,
                   \<lparr>tn_id = ''C'', parentId = Some ''B'', tn_table = mk_table ''C''\<rparr>]"
    by (fact treeData_example_chain)
  show "treeData [mk_table ''A'', mk_table ''B''] []
           = Some [virtual_node,
                   \<lparr>tn_id = ''A'', parentId = Some virtualRoot, tn_table = mk_table ''A''\<rparr>,
                   \<lparr>tn_id = ''B'', parentId = Some virtualRoot, tn_table = mk_table ''B''\<rparr>]"
    by (fact treeData_example_forest)
qed

theorem treeData_roots_witness:
  "distinct (map name [mk_table ''A'', mk_table ''B'', mk_table ''C'']) \<and>
   virtualRoot \<notin> name ` set [mk_table ''A'', mk_table ''B'', mk_table ''C''] \<and>
   [] \<notin> name ` set [mk_table ''A'', mk_table ''B'', mk_table ''C''] \<and>
   name ` set [mk_table ''A'', mk_table ''B'', mk_table ''C''] \<inter> set object_prototype_keys = {} \<and>
   targetTable (mk_fk ''C'' ''x_id'' ''X'' ''id'') \<noteq> [] \<and>
   targetTable (mk_fk ''C'' ''a_id'' ''A'' ''id'') \<noteq> [] \<and>
   length (filter (root_candidate [mk_fk ''C'' ''x_id'' ''X'' ''id'', mk_fk ''C'' ''a_id'' ''A'' ''id''])
             [mk_table ''A'', mk_table ''B'', mk_table ''C'']) > 1 \<and>
   top_nodes [mk_table ''A'', mk_table ''B'', mk_table ''C'']
     [mk_fk ''C'' ''x_id'' ''X'' ''id'', mk_fk ''C'' ''a_id'' ''A'' ''id''] = Some [virtualRoot] \<and>
   virtual_root_children [mk_table ''A'', mk_table ''B'', mk_table ''C'']
     [mk_fk ''C'' ''x_id'' ''X'' ''id'', mk_fk ''C'' ''a_id'' ''A'' ''id'']
     = Some (map name (filter (root_candidate
                                 [mk_fk ''C'' ''x_id'' ''X'' ''id'', mk_fk ''C'' ''a_id'' ''A'' ''id''])
                         [mk_table ''A'', mk_table ''B'', mk_table ''C''])
             @ map name (filter (orphan [mk_table ''A'', mk_table ''B'', mk_table ''C'']
                                   [mk_fk ''C'' ''x_id'' ''X'' ''id'', mk_fk ''C'' ''a_id'' ''A'' ''id''])
                           [mk_table ''A'', mk_table ''B'', mk_table ''C'']))"
proof -
  let ?T = "[mk_table ''A'', mk_table ''B'', mk_table ''C'']"
  let ?F = "[mk_fk ''C'' ''x_id'' ''X'' ''id'', mk_fk ''C'' ''a_id'' ''A'' ''id'']"
  have h1: "distinct (map name ?T)" by (simp add: mk_table_def)
  have h2: "virtualRoot \<notin> name ` set ?T" by (simp add: mk_table_def virtualRoot_def)
  have h3: "[] \<notin> name ` set ?T" by (simp add: mk_table_def)
  have h4: "name ` set ?T \<inter> set object_prototype_keys = {}"
    by (simp add: mk_table_def object_prototype_keys_def)
  have h5: "\<forall>fk \<in> set ?F. targetTable fk \<noteq> []" by (simp add: mk_fk_def)
  have many: "length (filter (root_candidate ?F) ?T) > 1"
    by (simp add: root_candidate_def mk_table_def mk_fk_def)
  from treeData_roots [OF h1 h2 h3 h4 h5] many
  have "top_nodes ?T ?F = Some [virtualRoot]"
    and "virtual_root_children ?T ?F
           = Some (map name (filter (root_candidate ?F) ?T) @ map name (filter (orphan ?T ?F) ?T))"
    by blast+
  moreover have "targetTable (mk_fk ''C'' ''x_id'' ''X'' ''id'') \<noteq> []"
    "targetTable (mk_fk ''C'' ''a_id'' ''A'' ''id'') \<noteq> []"
    by (simp_all add: mk_fk_def)
  ultimately show ?thesis using h1 h2 h3 h4 many by blast
qed

section \<open>Initial placement: rings and angles\<close>

text \<open>
  Ring \<open>r\<close> holds the six indices \<open>6 (r - 1) + 1, \<dots>, 6 r\<close>. The modulus in \<^verbatim>\<open>posInRing\<close>
  never reduces its argument: the position in the ring is the index minus one, over all
  rings. The first table of ring \<open>r\<close> therefore sits \<open>(r - 1) / r\<close> of a turn after the top.
\<close>

lemma ring_of_div: "ring_of i = (i + 5) div 6"
proof -
  have "\<lceil>real i / 6\<rceil> = int ((i + 5) div 6)"
  proof (rule ceiling_unique)
    have a: "6 * ((i + 5) div 6) + (i + 5) mod 6 = i + 5" by simp
    have b: "(i + 5) mod 6 < 6" by simp
    from a b have "6 * ((i + 5) div 6) < i + 6" by linarith
    then have "real (6 * ((i + 5) div 6)) < real (i + 6)" by (simp only: of_nat_less_iff)
    then have "6 * real ((i + 5) div 6) < real i + 6" by simp
    then show "of_int (int ((i + 5) div 6)) - 1 < real i / 6" by simp
    from a have "i \<le> 6 * ((i + 5) div 6)" by linarith
    then have "real i \<le> real (6 * ((i + 5) div 6))" by (simp only: of_nat_le_iff)
    then have "real i \<le> 6 * real ((i + 5) div 6)" by simp
    then show "real i / 6 \<le> of_int (int ((i + 5) div 6))" by simp
  qed
  then show ?thesis by (simp add: ring_of_def)
qed

lemma posInRing_index: "posInRing i = i - 1"
proof -
  have "i - 1 < (i + 5) div 6 * 6 \<or> i = 0" by (cases i) (simp, linarith)
  then show ?thesis
    unfolding posInRing_def ring_of_div by (cases "i = 0") auto
qed

lemma ring_of_members: "0 < r \<Longrightarrow> ring_of i = r \<longleftrightarrow> 6 * (r - 1) < i \<and> i \<le> 6 * r"
  unfolding ring_of_div by (cases r) auto

lemma ring_first_angle:
  "0 < r \<Longrightarrow> angle_of (6 * (r - 1) + 1) = 2 * pi * real (r - 1) / real r - pi / 2"
proof -
  assume r: "0 < r"
  have ro: "ring_of (6 * (r - 1) + 1) = r"
    using r by (simp add: ring_of_members)
  show ?thesis
    unfolding angle_of_def posInRing_index ro using r by (simp add: field_simps)
qed


lemma ring_first_table_top: "angle_of 1 = - pi / 2"
  by (simp add: angle_of_def posInRing_def ring_of_def)

text \<open>
  Claim C6, evaluated where it fails. With eight tables of equal degree the eighth table
  (index 7) opens ring 2. Its slot is 6 of 12, its angle is \<open>\<pi> / 2\<close>, half a turn after the
  top, and it is placed at \<open>(0, 560)\<close>, the bottom of the ring (the \<open>y\<close> axis points down).
\<close>

theorem initial_nodes_second_ring:
  "ring_of 7 = 2 \<and> posInRing 7 = 6 \<and> angle_of 7 = pi / 2 \<and>
   map (\<lambda>n. (gn_id n, gx n, gy n))
     (initial_nodes (map (\<lambda>c. mk_table [c]) ''abcdefgh'') []) ! 7 = (''h'', 0, 560)"
  by (simp add: initial_nodes_def sorted_tables_def js_sort_def conn_count_def mk_table_def
      count_or_zero_def initial_node_def angle_of_def posInRing_def ring_of_def radius_of_def
      upt_rec)

section \<open>Clustering engine: the union-find structure\<close>

lemma reaches_root_is_root: "reaches_root p x r \<Longrightarrow> p r = Some r"
  by (induction rule: reaches_root.induct) simp_all

lemma reaches_root_unique:
  "reaches_root p x r \<Longrightarrow> reaches_root p x r' \<Longrightarrow> r = r'"
proof (induction arbitrary: r' rule: reaches_root.induct)
  case (at_root r)
  from at_root.prems at_root.hyps show ?case
    by (cases rule: reaches_root.cases) simp_all
next
  case (via_parent x y r)
  from via_parent.prems show ?case
  proof (cases rule: reaches_root.cases)
    case at_root
    with via_parent.hyps show ?thesis by simp
  next
    case (via_parent y')
    with via_parent.hyps via_parent.IH show ?thesis by simp
  qed
qed

lemma reaches_root_in:
  "reaches_root p x r \<Longrightarrow> closed_in N p \<Longrightarrow> x \<in> N \<and> r \<in> N"
  by (induction rule: reaches_root.induct) (auto simp: closed_in_def)

lemma compress_keeps:
  assumes "reaches_root q x r" "reaches_root q z r'"
  shows "reaches_root (q(x \<mapsto> r)) z r'"
  using assms(2)
proof (induction rule: reaches_root.induct)
  case (at_root r')
  show ?case
  proof (cases "r' = x")
    case True
    have "reaches_root q x x" using at_root True by (simp add: reaches_root.at_root)
    then have "r = x" using assms(1) reaches_root_unique by blast
    then show ?thesis using True at_root by (simp add: reaches_root.at_root)
  next
    case False
    then show ?thesis using at_root by (simp add: reaches_root.at_root)
  qed
next
  case (via_parent z y r')
  show ?case
  proof (cases "z = x")
    case True
    have zr: "reaches_root q z r'" using via_parent.hyps by (rule reaches_root.via_parent)
    then have rr: "r' = r" using assms(1) True reaches_root_unique by blast
    have root: "q r = Some r" using assms(1) by (rule reaches_root_is_root)
    have "r \<noteq> x"
    proof
      assume "r = x"
      then have "q x = Some x" using root by simp
      then show False using via_parent.hyps(1,2) True by simp
    qed
    then have "reaches_root (q(x \<mapsto> r)) r r" using root by (simp add: reaches_root.at_root)
    moreover have "(q(x \<mapsto> r)) z = Some r" using True by simp
    moreover have "r \<noteq> z" using \<open>r \<noteq> x\<close> True by simp
    ultimately have "reaches_root (q(x \<mapsto> r)) z r"
      using reaches_root.via_parent [of "q(x \<mapsto> r)" z r r] by blast
    then show ?thesis unfolding rr .
  next
    case False
    then have "(q(x \<mapsto> r)) z = Some y" using via_parent.hyps(1) by simp
    then show ?thesis using via_parent.hyps(2) via_parent.IH by (rule reaches_root.via_parent)
  qed
qed

lemma link_moves:
  assumes ra: "q ra = Some ra" and rb: "q rb = Some rb" and "reaches_root q z r"
  shows "reaches_root (q(ra \<mapsto> rb)) z (if r = ra then rb else r)"
  using assms(3)
proof (induction rule: reaches_root.induct)
  case (at_root r)
  show ?case
  proof (cases "r = ra")
    case True
    show ?thesis
    proof (cases "ra = rb")
      case True
      then show ?thesis using \<open>r = ra\<close> ra by (simp add: reaches_root.at_root)
    next
      case False
      then have "reaches_root (q(ra \<mapsto> rb)) rb rb" using rb by (simp add: reaches_root.at_root)
      moreover have "(q(ra \<mapsto> rb)) ra = Some rb" by simp
      ultimately have "reaches_root (q(ra \<mapsto> rb)) ra rb"
        using False reaches_root.via_parent [of "q(ra \<mapsto> rb)" ra rb rb] by blast
      then show ?thesis using True by (simp only: simp_thms if_True)
    qed
  next
    case False
    then show ?thesis using at_root by (simp add: reaches_root.at_root)
  qed
next
  case (via_parent z y r)
  have "z \<noteq> ra" using via_parent.hyps(1,2) ra by auto
  then have "(q(ra \<mapsto> rb)) z = Some y" using via_parent.hyps(1) by simp
  then show ?case using via_parent.hyps(2) via_parent.IH by (rule reaches_root.via_parent)
qed

lemma fresh_keeps:
  assumes "q x = None" "reaches_root q z r"
  shows "reaches_root (q(x \<mapsto> y)) z r"
  using assms(2)
proof (induction rule: reaches_root.induct)
  case (at_root r)
  then have "r \<noteq> x" using assms(1) by auto
  then show ?case using at_root by (simp add: reaches_root.at_root)
next
  case (via_parent z y' r)
  then have "z \<noteq> x" using assms(1) by auto
  then have "(q(x \<mapsto> y)) z = Some y'" using via_parent.hyps(1) by simp
  then show ?case using via_parent.hyps(2) via_parent.IH by (rule reaches_root.via_parent)
qed

lemma closed_in_upd:
  "closed_in N p \<Longrightarrow> x \<in> N \<Longrightarrow> y \<in> N \<Longrightarrow> closed_in N (p(x \<mapsto> y))"
  by (simp add: closed_in_def)

lemma closed_in_mono: "closed_in N p \<Longrightarrow> N \<subseteq> M \<Longrightarrow> closed_in M p"
  unfolding closed_in_def by blast

lemma plain_key_read:
  assumes "plain_keys M" "closed_in N p" "N \<subseteq> M" "p x = Some y"
  shows "js_get p x = Own y" "js_truthy (Own y)"
proof -
  show g: "js_get p x = Own y" using assms(4) by (simp add: js_get_def)
  have "y \<in> M" using assms(2,3,4) unfolding closed_in_def by blast
  then have "y \<noteq> []" using assms(1) unfolding plain_keys_def by metis
  then show "js_truthy (Own y)" by (simp add: js_truthy_def)
qed

lemma plain_key_put:
  assumes "plain_keys M" "x \<in> M"
  shows "js_put p x y = p(x \<mapsto> y)"
proof -
  have "''__proto__'' \<in> set object_prototype_keys" by (simp add: object_prototype_keys_def)
  then have "x \<noteq> ''__proto__''" using assms unfolding plain_keys_def by blast
  then show ?thesis by (simp add: js_put_def)
qed

text \<open>\<^verbatim>\<open>find\<close> of a name that has a root returns the root and keeps every root.\<close>

lemma uf_find_spec:
  assumes e: "plain_keys M" and c: "closed_in N p" and nm: "N \<subseteq> M" and "reaches_root p x r"
  shows "\<exists>p'. uf_find p x = Some (Inr (r, p')) \<and> closed_in N p' \<and>
           (\<forall>z r'. reaches_root p z r' \<longrightarrow> reaches_root p' z r')"
  using assms(4)
proof (induction rule: reaches_root.induct)
  case (at_root r)
  have g: "js_get p r = Own r" and t: "js_truthy (Own r)"
    using plain_key_read [OF e c nm at_root] by blast+
  have "uf_find p r = Some (Inr (r, p))"
    by (subst uf_find.simps) (simp add: Let_def t g)
  then show ?case using c by blast
next
  case (via_parent x y r)
  from via_parent.IH obtain p1 where p1: "uf_find p y = Some (Inr (r, p1))"
    and c1: "closed_in N p1"
    and k1: "\<forall>z r'. reaches_root p z r' \<longrightarrow> reaches_root p1 z r'"
    by blast
  have g: "js_get p x = Own y" and t: "js_truthy (Own y)"
    using plain_key_read [OF e c nm via_parent.hyps(1)] by blast+
  have xr: "reaches_root p x r"
    using via_parent.hyps by (rule reaches_root.via_parent)
  then have xr1: "reaches_root p1 x r" using k1 by blast
  have xN: "x \<in> N" and rN: "r \<in> N" using reaches_root_in [OF xr c] by simp_all
  have put: "js_put p1 x r = p1(x \<mapsto> r)"
    using xN nm by (intro plain_key_put [OF e]) blast
  have f: "uf_find p x = Some (Inr (r, p1(x \<mapsto> r)))"
    using via_parent.hyps(2) by (subst uf_find.simps) (simp add: Let_def t g p1 put)
  have c2: "closed_in N (p1(x \<mapsto> r))" using c1 xN rN by (intro closed_in_upd)
  have "\<forall>z r'. reaches_root p z r' \<longrightarrow> reaches_root (p1(x \<mapsto> r)) z r'"
    using k1 compress_keeps [OF xr1] by blast
  with f c2 show ?case by blast
qed

text \<open>\<^verbatim>\<open>find\<close> of a name that is no key yet makes it a root.\<close>

lemma uf_find_fresh:
  assumes e: "plain_keys M" and x: "x \<in> M" and n: "p x = None"
  shows "uf_find p x = Some (Inr (x, p(x \<mapsto> x)))"
proof -
  have "x \<notin> set object_prototype_keys" using e x unfolding plain_keys_def by blast
  then have g: "js_get p x = Undefined" using n by (simp add: js_get_def)
  have put: "js_put p x x = p(x \<mapsto> x)" by (rule plain_key_put [OF e x])
  have g1: "js_get (p(x \<mapsto> x)) x = Own x" by (simp add: js_get_def)
  show ?thesis
    by (subst uf_find.simps) (simp add: Let_def g js_truthy_def put g1)
qed

lemma rooted_dom: "rooted N p \<Longrightarrow> x \<notin> N \<Longrightarrow> p x = None"
  unfolding rooted_def closed_in_def by (cases "p x") auto

lemma uf_find_total:
  assumes e: "plain_keys M" and r: "rooted N p" and nm: "N \<subseteq> M" and x: "x \<in> M"
  shows "\<exists>r' p'. uf_find p x = Some (Inr (r', p')) \<and> rooted (insert x N) p' \<and>
           reaches_root p' x r' \<and>
           (\<forall>z r''. reaches_root p z r'' \<longrightarrow> reaches_root p' z r'')"
proof (cases "x \<in> N")
  case True
  then obtain r' where r': "reaches_root p x r'" using r unfolding rooted_def by blast
  have c: "closed_in N p" using r by (simp add: rooted_def)
  from uf_find_spec [OF e c nm r'] obtain p' where p': "uf_find p x = Some (Inr (r', p'))"
    and c': "closed_in N p'"
    and k: "\<forall>z r''. reaches_root p z r'' \<longrightarrow> reaches_root p' z r''"
    by blast
  have "rooted N p'" using c' k r unfolding rooted_def by blast
  then have "rooted (insert x N) p'" using True by (simp add: insert_absorb)
  moreover have "reaches_root p' x r'" using k r' by blast
  ultimately show ?thesis using p' k by blast
next
  case False
  have n: "p x = None" by (rule rooted_dom [OF r False])
  have f: "uf_find p x = Some (Inr (x, p(x \<mapsto> x)))" by (rule uf_find_fresh [of M x p, OF e x n])
  have c: "closed_in N p" using r by (simp add: rooted_def)
  have k: "\<forall>z r''. reaches_root p z r'' \<longrightarrow> reaches_root (p(x \<mapsto> x)) z r''"
    using fresh_keeps [of p x _ _ x, OF n] by blast
  have xx: "reaches_root (p(x \<mapsto> x)) x x" by (simp add: reaches_root.at_root)
  have "closed_in (insert x N) (p(x \<mapsto> x))"
    using c unfolding closed_in_def by auto
  moreover have "\<forall>z \<in> insert x N. \<exists>r''. reaches_root (p(x \<mapsto> x)) z r''"
    using k xx r unfolding rooted_def by blast
  ultimately have "rooted (insert x N) (p(x \<mapsto> x))" unfolding rooted_def by blast
  with f xx k show ?thesis by blast
qed

lemma run_bind_Inr [simp]: "run_bind (Some (Inr v)) f = f v"
  by (simp add: run_bind_def)

lemma uf_union_total:
  assumes e: "plain_keys M" and r: "rooted N p" and nm: "N \<subseteq> M" and a: "a \<in> M" and b: "b \<in> M"
  shows "\<exists>p'. uf_union p a b = Some (Inr p') \<and> rooted (insert a (insert b N)) p'"
proof -
  from uf_find_total [OF e r nm a] obtain ra p1 where p1: "uf_find p a = Some (Inr (ra, p1))"
    and r1: "rooted (insert a N) p1" and a1: "reaches_root p1 a ra"
    by blast
  have nm1: "insert a N \<subseteq> M" using nm a by blast
  from uf_find_total [OF e r1 nm1 b] obtain rb p2 where p2: "uf_find p1 b = Some (Inr (rb, p2))"
    and r2: "rooted (insert b (insert a N)) p2" and b2: "reaches_root p2 b rb"
    and k2: "\<forall>z r''. reaches_root p1 z r'' \<longrightarrow> reaches_root p2 z r''"
    by blast
  let ?N = "insert b (insert a N)"
  have c2: "closed_in ?N p2" using r2 by (simp add: rooted_def)
  have a2: "reaches_root p2 a ra" using k2 a1 by blast
  have ra2: "p2 ra = Some ra" using a2 by (rule reaches_root_is_root)
  have rb2: "p2 rb = Some rb" using b2 by (rule reaches_root_is_root)
  have raN: "ra \<in> ?N" using reaches_root_in [OF a2 c2] by simp
  have rbN: "rb \<in> ?N" using reaches_root_in [OF b2 c2] by simp
  have "?N \<subseteq> M" using nm a b by blast
  then have "ra \<in> M" using raN by blast
  then have put: "js_put p2 ra rb = p2(ra \<mapsto> rb)" by (rule plain_key_put [OF e])
  have u: "uf_union p a b = Some (Inr (p2(ra \<mapsto> rb)))"
    by (simp add: uf_union_def p1 p2 put)
  have c3: "closed_in ?N (p2(ra \<mapsto> rb))" using c2 raN rbN by (intro closed_in_upd)
  have "\<exists>r'. reaches_root (p2(ra \<mapsto> rb)) z r'" if "z \<in> ?N" for z
  proof -
    from r2 that obtain r' where "reaches_root p2 z r'" unfolding rooted_def by blast
    from link_moves [OF ra2 rb2 this] show ?thesis by blast
  qed
  then have "rooted ?N (p2(ra \<mapsto> rb))" using c3 unfolding rooted_def by blast
  then have "rooted (insert a (insert b N)) (p2(ra \<mapsto> rb))" by (simp add: insert_commute)
  with u show ?thesis by blast
qed

lemma init_parent_lookup:
  assumes "''__proto__'' \<notin> name ` set tables"
  shows "init_parent tables n = (if n \<in> name ` set tables then Some n else None)"
proof -
  have "foldl (\<lambda>parent t. js_put parent (name t) (name t)) p ts n
          = (if n \<in> name ` set ts then Some n else p n)"
    if "''__proto__'' \<notin> name ` set ts" for p and ts :: "table_info list"
    using that by (induction ts arbitrary: p) (auto simp: js_put_def)
  from this [OF assms] show ?thesis by (simp add: init_parent_def)
qed

lemma init_parent_rooted:
  assumes e: "plain_keys M" and nm: "name ` set tables \<subseteq> M"
  shows "rooted (name ` set tables) (init_parent tables)"
proof -
  have "''__proto__'' \<in> set object_prototype_keys" by (simp add: object_prototype_keys_def)
  then have np: "''__proto__'' \<notin> name ` set tables"
    using e nm unfolding plain_keys_def by blast
  note l = init_parent_lookup [OF np]
  have "closed_in (name ` set tables) (init_parent tables)"
    unfolding closed_in_def l by (auto split: if_splits)
  moreover have "\<exists>r. reaches_root (init_parent tables) x r" if "x \<in> name ` set tables" for x
  proof -
    have "init_parent tables x = Some x" using that by (simp add: l)
    then have "reaches_root (init_parent tables) x x" by (rule reaches_root.at_root)
    then show ?thesis by blast
  qed
  ultimately show ?thesis unfolding rooted_def by blast
qed

text \<open>The unions over a list of foreign keys, guarded or not, return a rooted parent map.\<close>

lemma unions_total:
  assumes e: "plain_keys M" and r: "rooted N p" and nm: "N \<subseteq> M"
    and fk: "\<forall>fk \<in> set fks. G fk \<longrightarrow> sourceTable fk \<in> M \<and> targetTable fk \<in> M"
  shows "\<exists>p' N'. fold_run (\<lambda>parent fk.
             if G fk then uf_union parent (sourceTable fk) (targetTable fk) else Some (Inr parent))
           p fks = Some (Inr p') \<and> rooted N' p' \<and> N \<subseteq> N' \<and> N' \<subseteq> M"
  using r nm fk
proof (induction fks arbitrary: p N)
  case Nil
  then show ?case by auto
next
  case (Cons fk fks)
  let ?f = "\<lambda>parent fk.
             if G fk then uf_union parent (sourceTable fk) (targetTable fk) else Some (Inr parent)"
  have rest: "\<forall>fk \<in> set fks. G fk \<longrightarrow> sourceTable fk \<in> M \<and> targetTable fk \<in> M"
    using Cons.prems(3) by simp
  have "\<exists>p1 N1. ?f p fk = Some (Inr p1) \<and> rooted N1 p1 \<and> N \<subseteq> N1 \<and> N1 \<subseteq> M"
  proof (cases "G fk")
    case True
    then have s: "sourceTable fk \<in> M" and t: "targetTable fk \<in> M"
      using Cons.prems(3) by simp_all
    from uf_union_total [OF e Cons.prems(1,2) s t] obtain p1 where
      "uf_union p (sourceTable fk) (targetTable fk) = Some (Inr p1)"
      "rooted (insert (sourceTable fk) (insert (targetTable fk) N)) p1"
      by blast
    moreover have "insert (sourceTable fk) (insert (targetTable fk) N) \<subseteq> M"
      using s t Cons.prems(2) by blast
    ultimately show ?thesis using True by (intro exI conjI) auto
  next
    case False
    then show ?thesis using Cons.prems(1,2) by auto
  qed
  then obtain p1 N1 where p1: "?f p fk = Some (Inr p1)" and r1: "rooted N1 p1"
    and n1: "N \<subseteq> N1" "N1 \<subseteq> M"
    by blast
  from Cons.IH [OF r1 n1(2) rest] obtain p' N' where
    "fold_run ?f p1 fks = Some (Inr p')" "rooted N' p'" "N1 \<subseteq> N'" "N' \<subseteq> M"
    by blast
  moreover have "fold_run ?f p (fk # fks) = fold_run ?f p1 fks"
    by (simp only: fold_run.simps p1 run_bind_Inr)
  ultimately show ?case using n1(1) by (intro exI conjI) auto
qed

lemma add_member_plain:
  "r \<notin> set object_prototype_keys \<Longrightarrow> \<exists>gs'. add_member gs r t = Inr gs'"
  by (simp add: add_member_def)

lemma collect_total:
  assumes e: "plain_keys M" and r: "rooted N p" and nm: "N \<subseteq> M"
    and ts: "name ` set ts \<subseteq> N"
  shows "\<exists>p' gs'. fold_run collect_step (p, gs) ts = Some (Inr (p', gs'))"
  using r ts
proof (induction ts arbitrary: p gs)
  case Nil
  show ?case by simp
next
  case (Cons t ts)
  have tN: "name t \<in> N" using Cons.prems(2) by simp
  then have tM: "name t \<in> M" using nm by blast
  from uf_find_total [OF e Cons.prems(1) nm tM] obtain r' p1 where
    f: "uf_find p (name t) = Some (Inr (r', p1))"
    and r1: "rooted (insert (name t) N) p1" and rr: "reaches_root p1 (name t) r'"
    by blast
  have r1': "rooted N p1" using r1 tN by (simp add: insert_absorb)
  then have "closed_in N p1" by (simp add: rooted_def)
  then have "r' \<in> N" using reaches_root_in [OF rr] by blast
  then have "r' \<notin> set object_prototype_keys"
    using nm e unfolding plain_keys_def by blast
  then obtain gs1 where a: "add_member gs r' t = Inr gs1"
    using add_member_plain by blast
  have step: "collect_step (p, gs) t = Some (Inr (p1, gs1))"
    by (simp add: collect_step_def f a)
  have "name ` set ts \<subseteq> N" using Cons.prems(2) by simp
  from Cons.IH [OF r1' this, of gs1] obtain p' gs' where
    "fold_run collect_step (p1, gs1) ts = Some (Inr (p', gs'))" by blast
  moreover have "fold_run collect_step (p, gs) (t # ts) = fold_run collect_step (p1, gs1) ts"
    by (simp only: fold_run.simps step run_bind_Inr)
  ultimately show ?case by auto
qed

lemma collect_groups_total:
  assumes "plain_keys M" "rooted N p" "N \<subseteq> M" "name ` set tables \<subseteq> N"
  shows "\<exists>gs. collect_groups tables p = Some (Inr gs)"
proof -
  from collect_total [OF assms, of "[]"] obtain p' gs' where
    "fold_run collect_step (p, []) tables = Some (Inr (p', gs'))" by blast
  then show ?thesis by (simp add: collect_groups_def)
qed

text \<open>
  Both views return their groups when the names of the tables and, for GroupedView, the
  names in the foreign keys are not empty and are no names of inherited members.
\<close>

lemma grouped_groups_total:
  assumes "plain_keys (name ` set tables \<union> fk_names fks)"
  shows "\<exists>gs. grouped_groups tables fks = Some (Inr gs)"
proof -
  let ?M = "name ` set tables \<union> fk_names fks"
  have r0: "rooted (name ` set tables) (init_parent tables)"
    by (rule init_parent_rooted [OF assms]) simp
  have fk: "\<forall>fk \<in> set fks. True \<longrightarrow> sourceTable fk \<in> ?M \<and> targetTable fk \<in> ?M"
    by (simp add: fk_names_def)
  from unions_total [OF assms r0 _ fk] obtain p' N' where
    u: "fold_run (\<lambda>parent fk. if True then uf_union parent (sourceTable fk) (targetTable fk)
                             else Some (Inr parent)) (init_parent tables) fks = Some (Inr p')"
    and r': "rooted N' p'" and n: "name ` set tables \<subseteq> N'" "N' \<subseteq> ?M"
    by blast
  have gu: "grouped_unions tables fks = Some (Inr p')"
    using u by (simp add: grouped_unions_def)
  from collect_groups_total [OF assms r' n(2) n(1)] obtain gs where
    "collect_groups tables p' = Some (Inr gs)" by blast
  then show ?thesis by (simp add: grouped_groups_def gu)
qed

lemma swimlane_groups_total:
  assumes "plain_keys (name ` set tables)"
  shows "\<exists>gs. swimlane_groups tables fks = Some (Inr gs)"
proof -
  let ?M = "name ` set tables"
  let ?G = "\<lambda>fk. listed tables (sourceTable fk) \<and> listed tables (targetTable fk)"
  have r0: "rooted ?M (init_parent tables)"
    by (rule init_parent_rooted [OF assms]) simp
  have fk: "\<forall>fk \<in> set fks. ?G fk \<longrightarrow> sourceTable fk \<in> ?M \<and> targetTable fk \<in> ?M"
    by (simp add: listed_def)
  from unions_total [OF assms r0 _ fk] obtain p' N' where
    u: "fold_run (\<lambda>parent fk. if ?G fk then uf_union parent (sourceTable fk) (targetTable fk)
                             else Some (Inr parent)) (init_parent tables) fks = Some (Inr p')"
    and r': "rooted N' p'" and n: "?M \<subseteq> N'" "N' \<subseteq> ?M"
    by blast
  have su: "swimlane_unions tables fks = Some (Inr p')"
    using u by (simp add: swimlane_unions_def)
  from collect_groups_total [OF assms r' n(2) n(1)] obtain gs where
    "collect_groups tables p' = Some (Inr gs)" by blast
  then show ?thesis by (simp add: swimlane_groups_def su)
qed

section \<open>Clustering engine: clusters and connectivity\<close>

lemma same_root_roots:
  assumes "reaches_root p x rx" "reaches_root p y ry"
  shows "same_root p x y \<longleftrightarrow> rx = ry"
proof
  assume "same_root p x y"
  then obtain r where "reaches_root p x r" "reaches_root p y r"
    unfolding same_root_def by blast
  then show "rx = ry"
    using assms reaches_root_unique by blast
next
  assume "rx = ry"
  then show "same_root p x y" using assms unfolding same_root_def by blast
qed

text \<open>\<^verbatim>\<open>union(a, b)\<close> moves the names under the root of \<open>a\<close> to the root of \<open>b\<close>.\<close>

lemma uf_union_spec:
  assumes e: "plain_keys M" and c: "closed_in N p" and nm: "N \<subseteq> M"
    and a: "reaches_root p a ra" and b: "reaches_root p b rb"
  shows "\<exists>p'. uf_union p a b = Some (Inr p') \<and> closed_in N p' \<and>
           (\<forall>z r. reaches_root p z r \<longrightarrow> reaches_root p' z (if r = ra then rb else r))"
proof -
  from uf_find_spec [OF e c nm a] obtain p1 where p1: "uf_find p a = Some (Inr (ra, p1))"
    and c1: "closed_in N p1"
    and k1: "\<forall>z r'. reaches_root p z r' \<longrightarrow> reaches_root p1 z r'"
    by blast
  have b1: "reaches_root p1 b rb" using k1 b by blast
  from uf_find_spec [OF e c1 nm b1] obtain p2 where p2: "uf_find p1 b = Some (Inr (rb, p2))"
    and c2: "closed_in N p2"
    and k2: "\<forall>z r'. reaches_root p1 z r' \<longrightarrow> reaches_root p2 z r'"
    by blast
  have raN: "ra \<in> N" and rbN: "rb \<in> N"
    using reaches_root_in [OF a c] reaches_root_in [OF b c] by simp_all
  have "ra \<in> M" using raN nm by blast
  then have put: "js_put p2 ra rb = p2(ra \<mapsto> rb)" by (rule plain_key_put [OF e])
  have u: "uf_union p a b = Some (Inr (p2(ra \<mapsto> rb)))"
    by (simp add: uf_union_def p1 p2 put)
  have "reaches_root p ra ra" "reaches_root p rb rb"
    using reaches_root_is_root [OF a] reaches_root_is_root [OF b]
    by (simp_all add: reaches_root.at_root)
  then have "reaches_root p2 ra ra" "reaches_root p2 rb rb" using k1 k2 by blast+
  then have ra2: "p2 ra = Some ra" and rb2: "p2 rb = Some rb"
    by (simp_all add: reaches_root_is_root)
  have c3: "closed_in N (p2(ra \<mapsto> rb))" using c2 raN rbN by (intro closed_in_upd)
  have "\<forall>z r. reaches_root p z r \<longrightarrow> reaches_root (p2(ra \<mapsto> rb)) z (if r = ra then rb else r)"
    using k1 k2 link_moves [OF ra2 rb2] by blast
  with u c3 show ?thesis by blast
qed

lemma union_same_root:
  assumes e: "plain_keys M" and r: "rooted N p" and nm: "N \<subseteq> M"
    and a: "a \<in> N" and b: "b \<in> N"
  shows "\<exists>p'. uf_union p a b = Some (Inr p') \<and> rooted N p' \<and>
           (\<forall>x \<in> N. \<forall>y \<in> N. same_root p' x y \<longleftrightarrow>
              same_root p x y \<or> (same_root p x a \<and> same_root p b y)
                \<or> (same_root p x b \<and> same_root p a y))"
proof -
  have c: "closed_in N p" using r by (simp add: rooted_def)
  obtain ra where ra: "reaches_root p a ra" using r a unfolding rooted_def by blast
  obtain rb where rb: "reaches_root p b rb" using r b unfolding rooted_def by blast
  from uf_union_spec [OF e c nm ra rb] obtain p' where u: "uf_union p a b = Some (Inr p')"
    and c': "closed_in N p'"
    and mv: "\<forall>z r. reaches_root p z r \<longrightarrow> reaches_root p' z (if r = ra then rb else r)"
    by blast
  have r': "rooted N p'" using c' mv r unfolding rooted_def by blast
  have "same_root p' x y \<longleftrightarrow>
          same_root p x y \<or> (same_root p x a \<and> same_root p b y)
            \<or> (same_root p x b \<and> same_root p a y)"
    if x: "x \<in> N" and y: "y \<in> N" for x y
  proof -
    obtain rx where rx: "reaches_root p x rx" using r x unfolding rooted_def by blast
    obtain ry where ry: "reaches_root p y ry" using r y unfolding rooted_def by blast
    have nx: "reaches_root p' x (if rx = ra then rb else rx)" using mv rx by blast
    have ny: "reaches_root p' y (if ry = ra then rb else ry)" using mv ry by blast
    show ?thesis
      unfolding same_root_roots [OF nx ny] same_root_roots [OF rx ry] same_root_roots [OF rx ra]
        same_root_roots [OF rb ry] same_root_roots [OF rx rb] same_root_roots [OF ra ry]
      by auto
  qed
  with u r' show ?thesis by blast
qed

lemma connected_add:
  "(x, y) \<in> (insert (a, b) (insert (b, a) R))\<^sup>* \<longleftrightarrow>
     (x, y) \<in> R\<^sup>* \<or> ((x, a) \<in> R\<^sup>* \<and> (b, y) \<in> R\<^sup>*) \<or> ((x, b) \<in> R\<^sup>* \<and> (a, y) \<in> R\<^sup>*)"
proof -
  have "(x, y) \<in> (insert (a, b) (insert (b, a) R))\<^sup>* \<longleftrightarrow>
          (x, y) \<in> R\<^sup>* \<or> ((x, b) \<in> R\<^sup>* \<and> (a, y) \<in> R\<^sup>*)
          \<or> (((x, a) \<in> R\<^sup>* \<or> ((x, b) \<in> R\<^sup>* \<and> (a, a) \<in> R\<^sup>*))
              \<and> ((b, y) \<in> R\<^sup>* \<or> ((b, b) \<in> R\<^sup>* \<and> (a, y) \<in> R\<^sup>*)))"
    unfolding rtrancl_insert [of a b "insert (b, a) R"] rtrancl_insert [of b a R] by blast
  also have "\<dots> \<longleftrightarrow> (x, y) \<in> R\<^sup>* \<or> ((x, a) \<in> R\<^sup>* \<and> (b, y) \<in> R\<^sup>*)
                        \<or> ((x, b) \<in> R\<^sup>* \<and> (a, y) \<in> R\<^sup>*)"
    by (meson rtrancl.rtrancl_refl rtrancl_trans)
  finally show ?thesis .
qed

lemma fk_links_snoc:
  "fk_links N (fks @ [fk])
     = (if sourceTable fk \<in> N \<and> targetTable fk \<in> N
        then insert (sourceTable fk, targetTable fk) (fk_links N fks) else fk_links N fks)"
  unfolding fk_links_def by auto

lemma connected_snoc_inside:
  assumes "sourceTable fk \<in> N" "targetTable fk \<in> N"
  shows "(x, y) \<in> fk_connected N (fks @ [fk]) \<longleftrightarrow>
           (x, y) \<in> fk_connected N fks
           \<or> ((x, sourceTable fk) \<in> fk_connected N fks \<and> (targetTable fk, y) \<in> fk_connected N fks)
           \<or> ((x, targetTable fk) \<in> fk_connected N fks \<and> (sourceTable fk, y) \<in> fk_connected N fks)"
proof -
  let ?L = "fk_links N fks"
  have "fk_links N (fks @ [fk]) \<union> (fk_links N (fks @ [fk]))\<inverse>
          = insert (sourceTable fk, targetTable fk)
              (insert (targetTable fk, sourceTable fk) (?L \<union> ?L\<inverse>))"
    unfolding fk_links_snoc using assms by auto
  then show ?thesis
    unfolding fk_connected_def by (simp only: connected_add)
qed

lemma connected_snoc_outside:
  assumes "\<not> (sourceTable fk \<in> N \<and> targetTable fk \<in> N)"
  shows "fk_connected N (fks @ [fk]) = fk_connected N fks"
proof -
  have "fk_links N (fks @ [fk]) = fk_links N fks"
    unfolding fk_links_snoc using assms by (simp only: if_False)
  then show ?thesis unfolding fk_connected_def by simp
qed

text \<open>
  After the unions over the foreign keys whose two ends are in \<open>N\<close>, two names of \<open>N\<close> have
  the same root exactly when an undirected path of foreign keys within \<open>N\<close> connects them.
\<close>

lemma unions_connected:
  assumes e: "plain_keys M" and nm: "N \<subseteq> M"
    and g: "\<forall>fk \<in> set fks. G fk \<longleftrightarrow> sourceTable fk \<in> N \<and> targetTable fk \<in> N"
    and r: "rooted N p"
    and inv: "\<forall>x \<in> N. \<forall>y \<in> N. same_root p x y \<longleftrightarrow> (x, y) \<in> fk_connected N seen"
  shows "\<exists>p'. fold_run (\<lambda>parent fk.
             if G fk then uf_union parent (sourceTable fk) (targetTable fk) else Some (Inr parent))
           p fks = Some (Inr p') \<and> rooted N p' \<and>
           (\<forall>x \<in> N. \<forall>y \<in> N. same_root p' x y \<longleftrightarrow> (x, y) \<in> fk_connected N (seen @ fks))"
  using g r inv
proof (induction fks arbitrary: p seen)
  case Nil
  then show ?case by simp
next
  case (Cons fk fks)
  let ?f = "\<lambda>parent fk.
             if G fk then uf_union parent (sourceTable fk) (targetTable fk) else Some (Inr parent)"
  have rest: "\<forall>fk \<in> set fks. G fk \<longleftrightarrow> sourceTable fk \<in> N \<and> targetTable fk \<in> N"
    using Cons.prems(1) by simp
  have "\<exists>p1. ?f p fk = Some (Inr p1) \<and> rooted N p1 \<and>
          (\<forall>x \<in> N. \<forall>y \<in> N. same_root p1 x y \<longleftrightarrow> (x, y) \<in> fk_connected N (seen @ [fk]))"
  proof (cases "G fk")
    case True
    then have s: "sourceTable fk \<in> N" and t: "targetTable fk \<in> N"
      using Cons.prems(1) by simp_all
    from union_same_root [OF e Cons.prems(2) nm s t] obtain p1 where
      u: "uf_union p (sourceTable fk) (targetTable fk) = Some (Inr p1)"
      and r1: "rooted N p1"
      and sr: "\<forall>x \<in> N. \<forall>y \<in> N. same_root p1 x y \<longleftrightarrow>
              same_root p x y \<or> (same_root p x (sourceTable fk) \<and> same_root p (targetTable fk) y)
                \<or> (same_root p x (targetTable fk) \<and> same_root p (sourceTable fk) y)"
      by blast
    have "same_root p1 x y \<longleftrightarrow> (x, y) \<in> fk_connected N (seen @ [fk])"
      if x: "x \<in> N" and y: "y \<in> N" for x y
      unfolding connected_snoc_inside [OF s t]
      using sr x y s t Cons.prems(3) by simp
    with u r1 True show ?thesis by simp
  next
    case False
    then have "\<not> (sourceTable fk \<in> N \<and> targetTable fk \<in> N)"
      using Cons.prems(1) by simp
    then have "fk_connected N (seen @ [fk]) = fk_connected N seen"
      by (rule connected_snoc_outside)
    then show ?thesis using False Cons.prems(2,3) by simp
  qed
  then obtain p1 where p1: "?f p fk = Some (Inr p1)" and r1: "rooted N p1"
    and i1: "\<forall>x \<in> N. \<forall>y \<in> N. same_root p1 x y \<longleftrightarrow> (x, y) \<in> fk_connected N (seen @ [fk])"
    by blast
  from Cons.IH [OF rest r1 i1] obtain p' where
    "fold_run ?f p1 fks = Some (Inr p')" "rooted N p'"
    "\<forall>x \<in> N. \<forall>y \<in> N. same_root p' x y \<longleftrightarrow> (x, y) \<in> fk_connected N ((seen @ [fk]) @ fks)"
    by blast
  moreover have "fold_run ?f p (fk # fks) = fold_run ?f p1 fks"
    by (simp only: fold_run.simps p1 run_bind_Inr)
  ultimately show ?case by simp
qed

lemma init_parent_same_root:
  assumes e: "plain_keys M" and nm: "name ` set tables \<subseteq> M"
    and x: "x \<in> name ` set tables" and y: "y \<in> name ` set tables"
  shows "same_root (init_parent tables) x y \<longleftrightarrow> (x, y) \<in> fk_connected (name ` set tables) []"
proof -
  have "''__proto__'' \<in> set object_prototype_keys" by (simp add: object_prototype_keys_def)
  then have np: "''__proto__'' \<notin> name ` set tables"
    using e nm unfolding plain_keys_def by blast
  note l = init_parent_lookup [OF np]
  have rx: "reaches_root (init_parent tables) x x"
    using x by (intro reaches_root.at_root) (simp add: l)
  have ry: "reaches_root (init_parent tables) y y"
    using y by (intro reaches_root.at_root) (simp add: l)
  have "fk_connected (name ` set tables) [] = Id"
    by (simp add: fk_connected_def fk_links_def)
  then show ?thesis unfolding same_root_roots [OF rx ry] by simp
qed

text \<open>The loop that collects the groups sorts the tables by their roots.\<close>

lemma length_concat_upd:
  assumes "distinct (map fst gs)" "r \<in> fst ` set gs"
  shows "length (concat (map snd (map (\<lambda>g. if fst g = r then (fst g, snd g @ [t]) else g) gs)))
           = Suc (length (concat (map snd gs)))"
  using assms
proof (induction gs)
  case Nil
  then show ?case by simp
next
  case (Cons g gs)
  let ?upd = "\<lambda>g. if fst g = r then (fst g, snd g @ [t]) else g"
  show ?case
  proof (cases "fst g = r")
    case True
    then have "r \<notin> fst ` set gs" using Cons.prems(1) by auto
    then have "map ?upd gs = gs" by (induction gs) auto
    then show ?thesis using True by simp
  next
    case False
    then have "r \<in> fst ` set gs" using Cons.prems(2) by auto
    moreover have "distinct (map fst gs)" using Cons.prems(1) by simp
    ultimately have "length (concat (map snd (map ?upd gs))) = Suc (length (concat (map snd gs)))"
      by (rule Cons.IH [rotated])
    then show ?thesis using False by simp
  qed
qed

lemma add_member_grouped:
  assumes gb: "grouped_by K ts gs" and k: "K t r"
    and f: "\<And>t r r'. K t r \<Longrightarrow> K t r' \<Longrightarrow> r = r'"
    and a: "add_member gs r t = Inr gs1"
  shows "grouped_by K (ts @ [t]) gs1"
proof -
  let ?upd = "\<lambda>g. if fst g = r then (fst g, snd g @ [t]) else g"
  have d: "distinct (map fst gs)"
    and m: "\<And>g t'. g \<in> set gs \<Longrightarrow> t' \<in> set (snd g) \<longleftrightarrow> t' \<in> set ts \<and> K t' (fst g)"
    and c: "\<And>t'. t' \<in> set ts \<Longrightarrow> \<exists>g \<in> set gs. t' \<in> set (snd g)"
    and l: "length (concat (map snd gs)) = length ts"
    using gb unfolding grouped_by_def by blast+
  show ?thesis
  proof (cases "r \<in> fst ` set gs")
    case True
    then have g1: "gs1 = map ?upd gs" using a by (simp add: add_member_def)
    have k1: "map fst (map ?upd gs) = map fst gs" by (induction gs) auto
    have d1: "distinct (map fst gs1)" unfolding g1 k1 by (fact d)
    have m1: "t' \<in> set (snd g) \<longleftrightarrow> t' \<in> set (ts @ [t]) \<and> K t' (fst g)"
      if "g \<in> set gs1" for g t'
    proof -
      from that have "g \<in> ?upd ` set gs" unfolding g1 by (simp only: set_map)
      then obtain g0 where g0: "g0 \<in> set gs" "g = ?upd g0" by blast
      show ?thesis
      proof (cases "fst g0 = r")
        case True
        then have "g = (r, snd g0 @ [t])" using g0(2) by simp
        then show ?thesis using m [OF g0(1), of t'] True k by auto
      next
        case False
        then have "g = g0" using g0(2) by simp
        moreover have "\<not> K t (fst g0)" using False f [OF k] by blast
        ultimately show ?thesis using m [OF g0(1), of t'] by auto
      qed
    qed
    have c1: "\<exists>g \<in> set gs1. t' \<in> set (snd g)" if "t' \<in> set (ts @ [t])" for t'
    proof (cases "t' \<in> set ts")
      case True
      then obtain g0 where g0: "g0 \<in> set gs" "t' \<in> set (snd g0)" using c by blast
      then have "?upd g0 \<in> set gs1" "t' \<in> set (snd (?upd g0))" unfolding g1 by auto
      then show ?thesis by blast
    next
      case False
      then have "t' = t" using that by simp
      from \<open>r \<in> fst ` set gs\<close> obtain g0 where g0: "g0 \<in> set gs" "fst g0 = r" by auto
      then have "?upd g0 \<in> set gs1" "t \<in> set (snd (?upd g0))" unfolding g1 by auto
      then show ?thesis using \<open>t' = t\<close> by blast
    qed
    have l1: "length (concat (map snd gs1)) = length (ts @ [t])"
      unfolding g1 length_concat_upd [OF d True] l by simp
    show ?thesis unfolding grouped_by_def using d1 m1 c1 l1 by blast
  next
    case False
    then have g1: "gs1 = gs @ [(r, [t])]" using a by (simp add: add_member_def split: if_splits)
    have d1: "distinct (map fst gs1)" unfolding g1 using d False by simp
    have nk: "\<not> K t' r" if "t' \<in> set ts" for t'
    proof
      assume "K t' r"
      from c [OF that] obtain g0 where g0: "g0 \<in> set gs" "t' \<in> set (snd g0)" by blast
      then have "K t' (fst g0)" using m by blast
      then have "fst g0 = r" using f \<open>K t' r\<close> by blast
      then show False using g0(1) False by auto
    qed
    have m1: "t' \<in> set (snd g) \<longleftrightarrow> t' \<in> set (ts @ [t]) \<and> K t' (fst g)"
      if "g \<in> set gs1" for g t'
    proof (cases "g \<in> set gs")
      case True
      then have "fst g \<noteq> r" using False by auto
      then have "\<not> K t (fst g)" using f [OF k] by blast
      then show ?thesis using m [OF True, of t'] by auto
    next
      case False
      then have "g = (r, [t])" using that unfolding g1 by simp
      then show ?thesis using k nk by auto
    qed
    have c1: "\<exists>g \<in> set gs1. t' \<in> set (snd g)" if "t' \<in> set (ts @ [t])" for t'
    proof (cases "t' \<in> set ts")
      case True
      then show ?thesis using c unfolding g1 by auto
    next
      case False
      then have "t' = t" using that by simp
      then show ?thesis unfolding g1 by simp
    qed
    have l1: "length (concat (map snd gs1)) = length (ts @ [t])"
      unfolding g1 using l by simp
    show ?thesis unfolding grouped_by_def using d1 m1 c1 l1 by blast
  qed
qed

lemma collect_grouped:
  assumes e: "plain_keys M" and nm: "N \<subseteq> M" and r0: "rooted N p0"
    and r: "rooted N p"
    and keep: "\<forall>z r. reaches_root p0 z r \<longrightarrow> reaches_root p z r"
    and ts: "name ` set ts \<subseteq> N"
    and gb: "grouped_by (\<lambda>t r. reaches_root p0 (name t) r) seen gs"
  shows "\<exists>p' gs'. fold_run collect_step (p, gs) ts = Some (Inr (p', gs')) \<and>
           grouped_by (\<lambda>t r. reaches_root p0 (name t) r) (seen @ ts) gs'"
  using r keep ts gb
proof (induction ts arbitrary: p gs seen)
  case Nil
  then show ?case by simp
next
  case (Cons t ts)
  let ?K = "\<lambda>t r. reaches_root p0 (name t) r"
  have tN: "name t \<in> N" using Cons.prems(3) by simp
  then obtain rt where rt0: "reaches_root p0 (name t) rt" using r0 unfolding rooted_def by blast
  then have rt: "reaches_root p (name t) rt" using Cons.prems(2) by blast
  have c: "closed_in N p" using Cons.prems(1) by (simp add: rooted_def)
  from uf_find_spec [OF e c nm rt] obtain p1 where
    f: "uf_find p (name t) = Some (Inr (rt, p1))" and c1: "closed_in N p1"
    and k1: "\<forall>z r'. reaches_root p z r' \<longrightarrow> reaches_root p1 z r'"
    by blast
  have r1: "rooted N p1" using c1 k1 Cons.prems(1) unfolding rooted_def by blast
  have keep1: "\<forall>z r. reaches_root p0 z r \<longrightarrow> reaches_root p1 z r"
    using Cons.prems(2) k1 by blast
  have "rt \<in> N" using reaches_root_in [OF rt c] by simp
  then have "rt \<notin> set object_prototype_keys"
    using nm e unfolding plain_keys_def by blast
  then obtain gs1 where a: "add_member gs rt t = Inr gs1"
    using add_member_plain by blast
  have step: "collect_step (p, gs) t = Some (Inr (p1, gs1))"
    by (simp add: collect_step_def f a)
  have gb1: "grouped_by ?K (seen @ [t]) gs1"
    by (rule add_member_grouped [OF Cons.prems(4) rt0 _ a]) (rule reaches_root_unique)
  have "name ` set ts \<subseteq> N" using Cons.prems(3) by simp
  from Cons.IH [OF r1 keep1 this gb1] obtain p' gs' where
    "fold_run collect_step (p1, gs1) ts = Some (Inr (p', gs'))"
    "grouped_by ?K ((seen @ [t]) @ ts) gs'"
    by blast
  moreover have "fold_run collect_step (p, gs) (t # ts) = fold_run collect_step (p1, gs1) ts"
    by (simp only: fold_run.simps step run_bind_Inr)
  ultimately show ?case by simp
qed

lemma grouped_by_clusters:
  assumes gb: "grouped_by (\<lambda>t r. reaches_root p (name t) r) tables gs"
    and r: "rooted (name ` set tables) p"
  shows "(\<forall>a \<in> name ` set tables. \<forall>b \<in> name ` set tables.
            same_cluster gs a b \<longleftrightarrow> same_root p a b) \<and>
         (\<forall>t \<in> set tables. \<exists>!g. g \<in> set gs \<and> t \<in> set (snd g)) \<and>
         set (concat (map snd gs)) = set tables \<and>
         length (concat (map snd gs)) = length tables"
proof (intro conjI ballI)
  let ?K = "\<lambda>t r. reaches_root p (name t) r"
  have d: "distinct (map fst gs)"
    and m: "\<And>g t'. g \<in> set gs \<Longrightarrow> t' \<in> set (snd g) \<longleftrightarrow> t' \<in> set tables \<and> ?K t' (fst g)"
    and c: "\<And>t'. t' \<in> set tables \<Longrightarrow> \<exists>g \<in> set gs. t' \<in> set (snd g)"
    and l: "length (concat (map snd gs)) = length tables"
    using gb unfolding grouped_by_def by blast+
  have same_key: "g = g'" if "g \<in> set gs" "g' \<in> set gs" "fst g = fst g'" for g g'
    using d that by (metis distinct_map inj_onD)
  show "length (concat (map snd gs)) = length tables" by (fact l)
  show "set (concat (map snd gs)) = set tables"
  proof (intro equalityI subsetI)
    fix x assume "x \<in> set (concat (map snd gs))"
    then obtain g where "g \<in> set gs" "x \<in> set (snd g)" by auto
    then show "x \<in> set tables" using m by blast
  next
    fix x assume "x \<in> set tables"
    from c [OF this] obtain g where "g \<in> set gs" "x \<in> set (snd g)" by blast
    then show "x \<in> set (concat (map snd gs))" by auto
  qed
  show "\<exists>!g. g \<in> set gs \<and> t \<in> set (snd g)" if t: "t \<in> set tables" for t
  proof -
    from c [OF t] obtain g where g: "g \<in> set gs" "t \<in> set (snd g)" by blast
    show ?thesis
    proof (rule ex1I [of _ g])
      show "g \<in> set gs \<and> t \<in> set (snd g)" using g by simp
    next
      fix g' assume g': "g' \<in> set gs \<and> t \<in> set (snd g')"
      then have "?K t (fst g')" "?K t (fst g)" using m g by blast+
      then have "fst g' = fst g" by (rule reaches_root_unique)
      then show "g' = g" using same_key g' g(1) by blast
    qed
  qed
  show "same_cluster gs a b \<longleftrightarrow> same_root p a b"
    if a: "a \<in> name ` set tables" and b: "b \<in> name ` set tables" for a b
  proof
    assume "same_cluster gs a b"
    then obtain g ta tb where g: "g \<in> set gs" and ta: "ta \<in> set (snd g)" "name ta = a"
      and tb: "tb \<in> set (snd g)" "name tb = b"
      unfolding same_cluster_def by auto
    then have "reaches_root p a (fst g)" "reaches_root p b (fst g)"
      using m [OF g] by auto
    then show "same_root p a b" unfolding same_root_def by blast
  next
    assume "same_root p a b"
    then obtain rr where rr: "reaches_root p a rr" "reaches_root p b rr"
      unfolding same_root_def by blast
    from a obtain ta where ta: "ta \<in> set tables" "name ta = a" by auto
    from b obtain tb where tb: "tb \<in> set tables" "name tb = b" by auto
    from c [OF ta(1)] obtain g where g: "g \<in> set gs" "ta \<in> set (snd g)" by blast
    from c [OF tb(1)] obtain g' where g': "g' \<in> set gs" "tb \<in> set (snd g')" by blast
    have "reaches_root p a (fst g)" using m [OF g(1), of ta] g(2) ta(2) by simp
    then have 1: "fst g = rr" using rr(1) reaches_root_unique by blast
    have "reaches_root p b (fst g')" using m [OF g'(1), of tb] g'(2) tb(2) by simp
    then have 2: "fst g' = rr" using rr(2) reaches_root_unique by blast
    have "g' = g" using same_key [OF g'(1) g(1)] 1 2 by simp
    then show "same_cluster gs a b"
      unfolding same_cluster_def using g g'(2) ta(2) tb(2) by auto
  qed
qed

text \<open>
  For the union loop guarded by \<open>G\<close>, where \<open>G\<close> holds of the foreign keys with both ends in
  the table list: the view returns its groups, two tables share a group exactly when an
  undirected path of foreign keys within the table list connects them, and the groups
  are a partition of the table list.
\<close>

lemma clusters_connected:
  assumes e: "plain_keys (name ` set tables)"
    and g: "\<forall>fk \<in> set fks. G fk \<longleftrightarrow> sourceTable fk \<in> name ` set tables
                                  \<and> targetTable fk \<in> name ` set tables"
  shows "\<exists>gs. run_bind (fold_run (\<lambda>parent fk.
                   if G fk then uf_union parent (sourceTable fk) (targetTable fk)
                   else Some (Inr parent)) (init_parent tables) fks)
                (collect_groups tables) = Some (Inr gs) \<and>
           (\<forall>a \<in> name ` set tables. \<forall>b \<in> name ` set tables.
              same_cluster gs a b \<longleftrightarrow> (a, b) \<in> fk_connected (name ` set tables) fks) \<and>
           (\<forall>t \<in> set tables. \<exists>!g. g \<in> set gs \<and> t \<in> set (snd g)) \<and>
           set (concat (map snd gs)) = set tables \<and>
           length (concat (map snd gs)) = length tables"
proof -
  let ?N = "name ` set tables"
  let ?f = "\<lambda>parent fk. if G fk then uf_union parent (sourceTable fk) (targetTable fk)
                         else Some (Inr parent)"
  have nn: "?N \<subseteq> ?N" by simp
  have r0: "rooted ?N (init_parent tables)" by (rule init_parent_rooted [OF e nn])
  have i0: "\<forall>x \<in> ?N. \<forall>y \<in> ?N. same_root (init_parent tables) x y \<longleftrightarrow> (x, y) \<in> fk_connected ?N []"
    using init_parent_same_root [OF e nn] by blast
  from unions_connected [OF e nn g r0 i0] obtain p where
    u: "fold_run ?f (init_parent tables) fks = Some (Inr p)" and rp: "rooted ?N p"
    and sp: "\<forall>x \<in> ?N. \<forall>y \<in> ?N. same_root p x y \<longleftrightarrow> (x, y) \<in> fk_connected ?N fks"
    by auto
  have gb0: "grouped_by (\<lambda>t r. reaches_root p (name t) r) [] []"
    by (simp add: grouped_by_def)
  from collect_grouped [OF e nn rp rp _ nn gb0] obtain p' gs where
    cg: "fold_run collect_step (p, []) tables = Some (Inr (p', gs))"
    and gb: "grouped_by (\<lambda>t r. reaches_root p (name t) r) tables gs"
    by auto
  have res: "run_bind (fold_run ?f (init_parent tables) fks) (collect_groups tables) = Some (Inr gs)"
    by (simp add: u collect_groups_def cg)
  from grouped_by_clusters [OF gb rp] sp res show ?thesis by auto
qed

lemma swimlane_clusters_connected:
  assumes "plain_keys (name ` set tables)"
  shows "\<exists>gs. swimlane_groups tables fks = Some (Inr gs) \<and>
           (\<forall>a \<in> name ` set tables. \<forall>b \<in> name ` set tables.
              same_cluster gs a b \<longleftrightarrow> (a, b) \<in> fk_connected (name ` set tables) fks) \<and>
           (\<forall>t \<in> set tables. \<exists>!g. g \<in> set gs \<and> t \<in> set (snd g)) \<and>
           set (concat (map snd gs)) = set tables \<and>
           length (concat (map snd gs)) = length tables"
  using clusters_connected [OF assms,
      of fks "\<lambda>fk. listed tables (sourceTable fk) \<and> listed tables (targetTable fk)"]
  unfolding swimlane_groups_def swimlane_unions_def by (simp add: listed_def)

text \<open>
  GroupedView does the same when every foreign key has both ends in the table list.
\<close>

lemma grouped_clusters_connected:
  assumes "plain_keys (name ` set tables)" and "fk_names fks \<subseteq> name ` set tables"
  shows "\<exists>gs. grouped_groups tables fks = Some (Inr gs) \<and>
           (\<forall>a \<in> name ` set tables. \<forall>b \<in> name ` set tables.
              same_cluster gs a b \<longleftrightarrow> (a, b) \<in> fk_connected (name ` set tables) fks) \<and>
           (\<forall>t \<in> set tables. \<exists>!g. g \<in> set gs \<and> t \<in> set (snd g)) \<and>
           set (concat (map snd gs)) = set tables \<and>
           length (concat (map snd gs)) = length tables"
proof -
  have "\<forall>fk \<in> set fks. True \<longleftrightarrow> sourceTable fk \<in> name ` set tables
                                  \<and> targetTable fk \<in> name ` set tables"
    using assms(2) unfolding fk_names_def by auto
  from clusters_connected [OF assms(1), of fks "\<lambda>fk. True", OF this]
  show ?thesis unfolding grouped_groups_def grouped_unions_def by simp
qed

section \<open>Clustering engine: the order of the clusters\<close>

lemma insert_by_size:
  "insert_by by_size_desc x xs = insort_key (\<lambda>g. - int (length (snd g))) x xs"
  by (induction xs) (simp_all add: by_size_desc_def)

lemma js_sort_by_size:
  "js_sort by_size_desc xs = sort_key (\<lambda>g. - int (length (snd g))) xs"
  by (induction xs) (simp_all add: js_sort_def sort_key_def insert_by_size)

lemma by_size_sorted:
  "sorted_wrt (\<lambda>a b. length (snd b) \<le> length (snd a)) (js_sort by_size_desc xs)"
proof -
  have "sorted (map (\<lambda>g. - int (length (snd g))) (js_sort by_size_desc xs))"
    unfolding js_sort_by_size by (rule sorted_sort_key)
  then show ?thesis by (simp add: sorted_map)
qed

lemma by_size_stable:
  "filter (\<lambda>g. length (snd g) = k) (js_sort by_size_desc xs) = filter (\<lambda>g. length (snd g) = k) xs"
proof -
  have "filter (\<lambda>g. - int (length (snd g)) = - int k) (js_sort by_size_desc xs)
          = filter (\<lambda>g. - int (length (snd g)) = - int k) xs"
    unfolding js_sort_by_size by (rule sort_key_stable)
  then show ?thesis by simp
qed

lemma by_size_set: "set (js_sort by_size_desc xs) = set xs"
  unfolding js_sort_by_size by simp

lemma length_insert_by: "length (insert_by cmp x xs) = Suc (length xs)"
  by (induction xs) simp_all

lemma length_js_sort: "length (js_sort cmp xs) = length xs"
  by (induction xs) (simp_all add: js_sort_def length_insert_by)

text \<open>
  The groups are created in the order in which their first members occur in the table
  list: the first members of the groups, in the order of the groups, are a subsequence of
  the table list. No group is empty, and no id names two groups.
\<close>

lemma run_bind_returns:
  "run_bind m f = Some (Inr v) \<longleftrightarrow> (\<exists>u. m = Some (Inr u) \<and> f u = Some (Inr v))"
  by (auto simp: run_bind_def split: option.splits sum.splits)

lemma add_member_heads:
  assumes a: "add_member gs r t = Inr gs1" and ne: "[] \<notin> snd ` set gs"
    and d: "distinct (map fst gs)"
  shows "\<exists>hs. (hs = [] \<or> hs = [t]) \<and>
           map (\<lambda>g. hd (snd g)) gs1 = map (\<lambda>g. hd (snd g)) gs @ hs"
    and "[] \<notin> snd ` set gs1" and "distinct (map fst gs1)"
proof -
  let ?upd = "\<lambda>g. if fst g = r then (fst g, snd g @ [t]) else g"
  have old1: "map (\<lambda>g. hd (snd g)) (map ?upd gs) = map (\<lambda>g. hd (snd g)) gs"
    using ne by (induction gs) auto
  have old2: "[] \<notin> snd ` set (map ?upd gs)"
    using ne by (induction gs) auto
  have old3: "map fst (map ?upd gs) = map fst gs"
    by (induction gs) auto
  show "\<exists>hs. (hs = [] \<or> hs = [t]) \<and>
           map (\<lambda>g. hd (snd g)) gs1 = map (\<lambda>g. hd (snd g)) gs @ hs"
  proof (cases "r \<in> fst ` set gs")
    case True
    then have "gs1 = map ?upd gs" using a by (simp add: add_member_def)
    then have "map (\<lambda>g. hd (snd g)) gs1 = map (\<lambda>g. hd (snd g)) gs @ []"
      using old1 by (simp only: append_Nil2)
    then show ?thesis by blast
  next
    case False
    then have "gs1 = gs @ [(r, [t])]" using a by (simp add: add_member_def split: if_splits)
    then have "map (\<lambda>g. hd (snd g)) gs1 = map (\<lambda>g. hd (snd g)) gs @ [t]" by simp
    then show ?thesis by blast
  qed
  show "[] \<notin> snd ` set gs1"
  proof (cases "r \<in> fst ` set gs")
    case True
    then have "gs1 = map ?upd gs" using a by (simp add: add_member_def)
    then show ?thesis using old2 by blast
  next
    case False
    then have "gs1 = gs @ [(r, [t])]" using a by (simp add: add_member_def split: if_splits)
    then show ?thesis using ne by auto
  qed
  show "distinct (map fst gs1)"
  proof (cases "r \<in> fst ` set gs")
    case True
    then have "gs1 = map ?upd gs" using a by (simp add: add_member_def)
    then show ?thesis using old3 d by metis
  next
    case False
    then have "gs1 = gs @ [(r, [t])]" using a by (simp add: add_member_def split: if_splits)
    then show ?thesis using d False by simp
  qed
qed

lemma collect_step_returns:
  assumes "collect_step (p, gs) t = Some (Inr (p1, gs1))"
  shows "\<exists>r. add_member gs r t = Inr gs1"
proof -
  from assms obtain found where
    c: "(case add_member gs (fst found) t of
           Inl e \<Rightarrow> Some (Inl e)
         | Inr gs' \<Rightarrow> Some (Inr (snd found, gs'))) = Some (Inr (p1, gs1))"
    unfolding collect_step_def run_bind_returns fst_conv snd_conv by blast
  show ?thesis
  proof (cases "add_member gs (fst found) t")
    case (Inl e)
    with c show ?thesis by simp
  next
    case (Inr gs')
    with c have "gs' = gs1" by simp
    with Inr show ?thesis by blast
  qed
qed

lemma collect_heads:
  assumes "fold_run collect_step (p, gs) ts = Some (Inr (p', gs'))"
    and "[] \<notin> snd ` set gs" and "distinct (map fst gs)"
  shows "(\<exists>hs. subseq hs ts \<and> map (\<lambda>g. hd (snd g)) gs' = map (\<lambda>g. hd (snd g)) gs @ hs) \<and>
         [] \<notin> snd ` set gs' \<and> distinct (map fst gs')"
  using assms
proof (induction ts arbitrary: p gs)
  case Nil
  then show ?case by simp
next
  case (Cons t ts)
  from Cons.prems(1) obtain st where st: "collect_step (p, gs) t = Some (Inr st)"
    and rest: "fold_run collect_step st ts = Some (Inr (p', gs'))"
    unfolding fold_run.simps run_bind_returns by blast
  obtain p1 gs1 where st1: "st = (p1, gs1)" by (cases st)
  from collect_step_returns [OF st [unfolded st1]] obtain r where
    a: "add_member gs r t = Inr gs1" by blast
  from add_member_heads [OF a Cons.prems(2,3)] obtain h0 where
    h0: "h0 = [] \<or> h0 = [t]"
      "map (\<lambda>g. hd (snd g)) gs1 = map (\<lambda>g. hd (snd g)) gs @ h0"
    and ne1: "[] \<notin> snd ` set gs1" and d1: "distinct (map fst gs1)"
    by blast
  from Cons.IH [OF rest [unfolded st1] ne1 d1] obtain hs where
    hs: "subseq hs ts" "map (\<lambda>g. hd (snd g)) gs' = map (\<lambda>g. hd (snd g)) gs1 @ hs"
    and ne': "[] \<notin> snd ` set gs'" and d': "distinct (map fst gs')"
    by blast
  have "subseq (h0 @ hs) (t # ts)"
    using h0(1) hs(1) by auto
  moreover have "map (\<lambda>g. hd (snd g)) gs' = map (\<lambda>g. hd (snd g)) gs @ (h0 @ hs)"
    using hs(2) h0(2) by simp
  ultimately show ?case using ne' d' by blast
qed

lemma collect_groups_heads:
  assumes "collect_groups tables p = Some (Inr gs)"
  shows "subseq (map (\<lambda>g. hd (snd g)) gs) tables \<and> [] \<notin> snd ` set gs \<and>
         distinct (map fst gs)"
proof -
  from assms obtain st where st: "fold_run collect_step (p, []) tables = Some (Inr st)"
    and g: "gs = snd st"
    unfolding collect_groups_def run_bind_returns by auto
  obtain p' where "st = (p', gs)" using g by (cases st) simp
  with st have "fold_run collect_step (p, []) tables = Some (Inr (p', gs))" by simp
  from collect_heads [OF this] show ?thesis by auto
qed

lemma grouped_groups_heads:
  assumes "grouped_groups tables fks = Some (Inr gs)"
  shows "subseq (map (\<lambda>g. hd (snd g)) gs) tables \<and> [] \<notin> snd ` set gs \<and>
         distinct (map fst gs)"
proof -
  from assms obtain p where "collect_groups tables p = Some (Inr gs)"
    unfolding grouped_groups_def run_bind_returns by blast
  then show ?thesis by (rule collect_groups_heads)
qed

lemma swimlane_groups_heads:
  assumes "swimlane_groups tables fks = Some (Inr gs)"
  shows "subseq (map (\<lambda>g. hd (snd g)) gs) tables \<and> [] \<notin> snd ` set gs \<and>
         distinct (map fst gs)"
proof -
  from assms obtain p where "collect_groups tables p = Some (Inr gs)"
    unfolding swimlane_groups_def run_bind_returns by blast
  then show ?thesis by (rule collect_groups_heads)
qed

text \<open>
  Whatever the groups are, the sorted list is in descending order of the member counts,
  and the groups of one member count keep the order of \<^verbatim>\<open>Object.entries\<close>.
\<close>

lemma grouped_clusters_sorted:
  assumes "grouped_groups tables fks = Some (Inr gs)"
  shows "\<exists>cs. grouped_clusters tables fks = Some (Inr cs) \<and>
           sorted_wrt (\<lambda>a b. length (snd b) \<le> length (snd a)) cs \<and>
           (\<forall>k. filter (\<lambda>g. length (snd g) = k) cs
                  = filter (\<lambda>g. length (snd g) = k) (object_entries gs)) \<and>
           set cs = set (object_entries gs)"
proof -
  let ?cs = "js_sort by_size_desc (object_entries gs)"
  have "grouped_clusters tables fks = Some (Inr ?cs)"
    by (simp add: grouped_clusters_def assms)
  moreover have "sorted_wrt (\<lambda>a b. length (snd b) \<le> length (snd a)) ?cs"
    by (rule by_size_sorted)
  moreover have "\<forall>k. filter (\<lambda>g. length (snd g) = k) ?cs
                  = filter (\<lambda>g. length (snd g) = k) (object_entries gs)"
    by (simp add: by_size_stable)
  moreover have "set ?cs = set (object_entries gs)"
    by (rule by_size_set)
  ultimately show ?thesis by blast
qed

lemma swimlane_lanes_sorted:
  assumes "swimlane_groups tables fks = Some (Inr gs)"
  shows "\<exists>ls. swimlane_lanes localeCompare tables fks = Some (Inr ls) \<and>
           sorted_wrt (\<lambda>a b. length (lane_tables b) \<le> length (lane_tables a)) ls \<and>
           (\<forall>k. map lane_id (filter (\<lambda>l. length (lane_tables l) = k) ls)
                  = map fst (filter (\<lambda>g. length (snd g) = k) (object_entries gs)))"
proof -
  let ?mk = "\<lambda>g. \<lparr>lane_id = fst g,
                   lane_tables = js_sort (\<lambda>a b. localeCompare (name a) (name b)) (snd g)\<rparr>"
  let ?cs = "js_sort by_size_desc (object_entries gs)"
  have r: "swimlane_lanes localeCompare tables fks = Some (Inr (map ?mk ?cs))"
    by (simp add: swimlane_lanes_def assms)
  have s: "sorted_wrt (\<lambda>a b. length (lane_tables b) \<le> length (lane_tables a)) (map ?mk ?cs)"
    using by_size_sorted [of "object_entries gs"]
    by (simp add: sorted_wrt_map length_js_sort)
  have t: "map lane_id (filter (\<lambda>l. length (lane_tables l) = k) (map ?mk ?cs))
             = map fst (filter (\<lambda>g. length (snd g) = k) (object_entries gs))" for k
  proof -
    have "filter (\<lambda>l. length (lane_tables l) = k) (map ?mk ?cs)
            = map ?mk (filter (\<lambda>g. length (snd g) = k) ?cs)"
      by (simp add: filter_map comp_def length_js_sort)
    then show ?thesis by (simp add: by_size_stable comp_def)
  qed
  from r s t show ?thesis by blast
qed

text \<open>
  Claim C4, evaluated where it fails. The tables \<open>B\<close> and \<open>C\<close> both have a foreign key to a
  table \<open>X\<close> that is not in the schema. No foreign key connects \<open>B\<close> and \<open>C\<close> within the table
  set, yet GroupedView, whose unions have no guard, puts them into one cluster, under the
  id \<open>X\<close>. SwimlaneView, which guards its unions on both ends, keeps them apart.
\<close>

theorem grouped_clusters_absent_target:
  "grouped_clusters [mk_table ''B'', mk_table ''C'']
     [mk_fk ''B'' ''x_id'' ''X'' ''id'', mk_fk ''C'' ''x_id'' ''X'' ''id'']
     = Some (Inr [(''X'', [mk_table ''B'', mk_table ''C''])]) \<and>
   swimlane_groups [mk_table ''B'', mk_table ''C'']
     [mk_fk ''B'' ''x_id'' ''X'' ''id'', mk_fk ''C'' ''x_id'' ''X'' ''id'']
     = Some (Inr [(''B'', [mk_table ''B'']), (''C'', [mk_table ''C''])])"
  by code_simp

text \<open>
  Claim C8 as stated fails: the tables \<open>a, b, c, d\<close> with \<open>a \<rightarrow> d\<close> and \<open>b \<rightarrow> c\<close> give two
  clusters of two tables; the cluster with the id \<open>d\<close> comes before the cluster with the
  id \<open>c\<close>, against the lexical order, in both views.
\<close>

theorem cluster_order_tie_counterexample:
  "grouped_clusters [mk_table ''a'', mk_table ''b'', mk_table ''c'', mk_table ''d'']
     [mk_fk ''a'' ''d_id'' ''d'' ''id'', mk_fk ''b'' ''c_id'' ''c'' ''id'']
     = Some (Inr [(''d'', [mk_table ''a'', mk_table ''d'']),
                  (''c'', [mk_table ''b'', mk_table ''c''])]) \<and>
   swimlane_groups [mk_table ''a'', mk_table ''b'', mk_table ''c'', mk_table ''d'']
     [mk_fk ''a'' ''d_id'' ''d'' ''id'', mk_fk ''b'' ''c_id'' ''c'' ''id'']
     = Some (Inr [(''d'', [mk_table ''a'', mk_table ''d'']),
                  (''c'', [mk_table ''b'', mk_table ''c''])])"
  by code_simp

text \<open>
  Claim C8, amended. When the names of the tables and the names in the foreign keys are
  not empty and are no names of inherited members of a plain object, both views return
  their cluster list; the list is in descending order of the member counts, and the
  clusters of one member count keep the order in which \<^verbatim>\<open>Object.entries\<close> enumerates the
  groups: ids that are array indices first, in numeric order, then the other ids in the
  order in which the groups were created, which is the order in which their first members
  occur in the table list. The lexical order of the ids plays no part.
\<close>

theorem cluster_order:
  assumes "plain_keys (name ` set tables \<union> fk_names fks)"
  shows "(\<exists>gs cs. grouped_groups tables fks = Some (Inr gs) \<and>
            grouped_clusters tables fks = Some (Inr cs) \<and>
            sorted_wrt (\<lambda>a b. length (snd b) \<le> length (snd a)) cs \<and>
            (\<forall>k. filter (\<lambda>g. length (snd g) = k) cs
                   = filter (\<lambda>g. length (snd g) = k) (object_entries gs)) \<and>
            set cs = set (object_entries gs) \<and>
            subseq (map (\<lambda>g. hd (snd g)) gs) tables \<and> [] \<notin> snd ` set gs \<and>
            distinct (map fst gs)) \<and>
         (\<exists>gs ls. swimlane_groups tables fks = Some (Inr gs) \<and>
            swimlane_lanes localeCompare tables fks = Some (Inr ls) \<and>
            sorted_wrt (\<lambda>a b. length (lane_tables b) \<le> length (lane_tables a)) ls \<and>
            (\<forall>k. map lane_id (filter (\<lambda>l. length (lane_tables l) = k) ls)
                   = map fst (filter (\<lambda>g. length (snd g) = k) (object_entries gs))) \<and>
            subseq (map (\<lambda>g. hd (snd g)) gs) tables \<and> [] \<notin> snd ` set gs \<and>
            distinct (map fst gs))"
proof
  from grouped_groups_total [OF assms] obtain gs where
    gs: "grouped_groups tables fks = Some (Inr gs)" by blast
  from grouped_clusters_sorted [OF gs] gs grouped_groups_heads [OF gs]
  show "\<exists>gs cs. grouped_groups tables fks = Some (Inr gs) \<and>
            grouped_clusters tables fks = Some (Inr cs) \<and>
            sorted_wrt (\<lambda>a b. length (snd b) \<le> length (snd a)) cs \<and>
            (\<forall>k. filter (\<lambda>g. length (snd g) = k) cs
                   = filter (\<lambda>g. length (snd g) = k) (object_entries gs)) \<and>
            set cs = set (object_entries gs) \<and>
            subseq (map (\<lambda>g. hd (snd g)) gs) tables \<and> [] \<notin> snd ` set gs \<and>
            distinct (map fst gs)"
    by blast
next
  have "plain_keys (name ` set tables)"
    using assms unfolding plain_keys_def by blast
  from swimlane_groups_total [OF this] obtain gs where
    gs: "swimlane_groups tables fks = Some (Inr gs)" by blast
  from swimlane_lanes_sorted [OF gs, of localeCompare] gs swimlane_groups_heads [OF gs]
  show "\<exists>gs ls. swimlane_groups tables fks = Some (Inr gs) \<and>
            swimlane_lanes localeCompare tables fks = Some (Inr ls) \<and>
            sorted_wrt (\<lambda>a b. length (lane_tables b) \<le> length (lane_tables a)) ls \<and>
            (\<forall>k. map lane_id (filter (\<lambda>l. length (lane_tables l) = k) ls)
                   = map fst (filter (\<lambda>g. length (snd g) = k) (object_entries gs))) \<and>
            subseq (map (\<lambda>g. hd (snd g)) gs) tables \<and> [] \<notin> snd ` set gs \<and>
            distinct (map fst gs)"
    by blast
qed

theorem cluster_order_witness:
  "plain_keys (name ` set [mk_table ''a'', mk_table ''b'', mk_table ''c'', mk_table ''d'']
               \<union> fk_names [mk_fk ''a'' ''d_id'' ''d'' ''id'', mk_fk ''b'' ''c_id'' ''c'' ''id'']) \<and>
   (\<exists>gs cs. grouped_groups [mk_table ''a'', mk_table ''b'', mk_table ''c'', mk_table ''d'']
               [mk_fk ''a'' ''d_id'' ''d'' ''id'', mk_fk ''b'' ''c_id'' ''c'' ''id''] = Some (Inr gs) \<and>
      grouped_clusters [mk_table ''a'', mk_table ''b'', mk_table ''c'', mk_table ''d'']
               [mk_fk ''a'' ''d_id'' ''d'' ''id'', mk_fk ''b'' ''c_id'' ''c'' ''id''] = Some (Inr cs) \<and>
      sorted_wrt (\<lambda>a b. length (snd b) \<le> length (snd a)) cs \<and>
      filter (\<lambda>g. length (snd g) = 2) cs = filter (\<lambda>g. length (snd g) = 2) (object_entries gs) \<and>
      subseq (map (\<lambda>g. hd (snd g)) gs)
        [mk_table ''a'', mk_table ''b'', mk_table ''c'', mk_table ''d''])"
proof -
  let ?T = "[mk_table ''a'', mk_table ''b'', mk_table ''c'', mk_table ''d'']"
  let ?F = "[mk_fk ''a'' ''d_id'' ''d'' ''id'', mk_fk ''b'' ''c_id'' ''c'' ''id'']"
  have h: "plain_keys (name ` set ?T \<union> fk_names ?F)"
    by (simp add: plain_keys_def fk_names_def mk_table_def mk_fk_def object_prototype_keys_def)
  from cluster_order [OF h, of "\<lambda>a b. 0"] h show ?thesis by blast
qed

end
